theory Spec2Isabelle
  imports Main "HOL-Library.Word"
begin

unbundle bit_operations_syntax

section \<open>The stoch driver (stoch2.c): data model\<close>

text \<open>
  The module keeps one histogram per previous byte. The C types are modelled by words:
  \<^verbatim>\<open>unsigned char\<close> is \<open>8 word\<close>, \<^verbatim>\<open>unsigned int\<close> and \<^verbatim>\<open>int\<close> are \<open>32 word\<close>
  (read with \<open>unat\<close> and \<open>sint\<close>), \<^verbatim>\<open>size_t\<close> is \<open>64 word\<close> (an LP64 kernel).
  An array of \<^verbatim>\<open>STOCH_HIST_SIZE\<close> = 256 entries is a function from \<open>8 word\<close>, whose
  values are exactly the valid indices.
\<close>

type_synonym byte = "8 word"
type_synonym uint = "32 word"
type_synonym size_t = "64 word"

text \<open>\<^verbatim>\<open>struct _stoch_hist { unsigned int data[STOCH_HIST_SIZE]; unsigned int total; }\<close>\<close>

record stoch_hist_t =
  h_data :: "byte \<Rightarrow> uint"
  h_total :: uint

text \<open>
  The globals of the module: \<^verbatim>\<open>stoch_hist.data\<close>, \<^verbatim>\<open>stoch_hist.total\<close> and
  \<^verbatim>\<open>stoch_prev\<close>. The field \<open>entropy\<close> is the kernel's random byte source that
  \<^verbatim>\<open>get_random_bytes\<close> reads: an unending sequence of bytes, of which each call
  consumes a prefix.
\<close>

record stoch_state =
  hist_data :: "byte \<Rightarrow> stoch_hist_t"
  hist_total :: uint
  stoch_prev :: byte
  entropy :: "nat \<Rightarrow> byte"

subsection \<open>Training\<close>

text \<open>
  \<^verbatim>\<open>stoch_hist_update( h, x )\<close> with \<open>h = &stoch_hist.data[c]\<close>: the pointer is
  represented by the index \<open>c\<close> of the histogram it points to. The increments are
  \<^verbatim>\<open>unsigned int\<close> increments and wrap at \<open>2 ^ 32\<close>; the source does not check.
\<close>

definition stoch_hist_update :: "byte \<Rightarrow> byte \<Rightarrow> stoch_state \<Rightarrow> stoch_state" where
  "stoch_hist_update c x s =
     (let p = uint x in
      if 0 \<le> p \<and> p < 256 then
        let h = hist_data s c;
            h' = h\<lparr>h_data := (h_data h)(x := h_data h x + 1), h_total := h_total h + 1\<rparr>
        in s\<lparr>hist_data := (hist_data s)(c := h'), hist_total := hist_total s + 1\<rparr>
      else s)"

text \<open>
  The loop of \<^verbatim>\<open>stoch_write\<close> over the bytes copied from the caller, in order:
  each byte is counted in the histogram of \<^verbatim>\<open>stoch_prev\<close> and then becomes
  \<^verbatim>\<open>stoch_prev\<close>. (The C loop counter is an \<^verbatim>\<open>int\<close>; a buffer that \<^verbatim>\<open>kmalloc\<close> can
  hand out is far shorter than \<open>2 ^ 31\<close> bytes.)
\<close>

fun write_loop :: "byte list \<Rightarrow> stoch_state \<Rightarrow> stoch_state" where
  "write_loop [] s = s"
| "write_loop (x # tmp) s =
     write_loop tmp ((stoch_hist_update (stoch_prev s) x s)\<lparr>stoch_prev := x\<rparr>)"

text \<open>\<^verbatim>\<open>stoch_write\<close> returns \<^verbatim>\<open>count\<close>; the second component is the state it leaves.\<close>

definition stoch_write :: "byte list \<Rightarrow> stoch_state \<Rightarrow> nat \<times> stoch_state" where
  "stoch_write buf s = (length buf, write_loop buf s)"

text \<open>Several writes in a row, each with its own buffer.\<close>

fun stoch_writes :: "byte list list \<Rightarrow> stoch_state \<Rightarrow> stoch_state" where
  "stoch_writes [] s = s"
| "stoch_writes (buf # bufs) s = stoch_writes bufs (snd (stoch_write buf s))"

subsection \<open>Clearing\<close>

text \<open>
  \<^verbatim>\<open>memset( s, c, n )\<close> of the C library writes the byte \<open>(unsigned char)c\<close> into the
  first \<open>n\<close> bytes of the object at \<open>s\<close>. Both objects it is applied to here consist
  of \<^verbatim>\<open>unsigned int\<close> fields only, so an object is viewed as its sequence of 32-bit
  words (4 bytes each, no padding, lowest address first within a word): word \<open>a\<close>
  holds the bytes \<open>4 * a\<close> to \<open>4 * a + 3\<close>.
\<close>

definition fill_bytes :: "uint \<Rightarrow> byte \<Rightarrow> nat \<Rightarrow> uint" where
  "fill_bytes w c k =
     (let m = mask (8 * min k 4) :: uint;
          cccc = ucast c * 0x01010101 :: uint
      in (w AND NOT m) OR (cccc AND m))"

definition memset :: "(nat \<Rightarrow> uint) \<Rightarrow> int \<Rightarrow> nat \<Rightarrow> (nat \<Rightarrow> uint)" where
  "memset obj c n = (\<lambda>a. fill_bytes (obj a) (word_of_int c) (n - 4 * a))"

text \<open>The layout of \<^verbatim>\<open>struct _stoch_hist\<close>: \<open>data[0]\<close> to \<open>data[255]\<close>, then \<open>total\<close>.\<close>

definition hist_words :: "stoch_hist_t \<Rightarrow> nat \<Rightarrow> uint" where
  "hist_words h a = (if a < 256 then h_data h (of_nat a) else h_total h)"

definition words_hist :: "(nat \<Rightarrow> uint) \<Rightarrow> stoch_hist_t" where
  "words_hist obj = \<lparr>h_data = (\<lambda>x. obj (unat x)), h_total = obj 256\<rparr>"

definition sizeof_stoch_hist_t :: nat where
  "sizeof_stoch_hist_t = 4 * 257"

text \<open>The layout of the global \<^verbatim>\<open>stoch_hist\<close>: 256 histograms, then \<open>total\<close>.\<close>

definition stoch_hist_words :: "stoch_state \<Rightarrow> nat \<Rightarrow> uint" where
  "stoch_hist_words s a =
     (if a < 256 * 257 then hist_words (hist_data s (of_nat (a div 257))) (a mod 257)
      else hist_total s)"

definition words_stoch_hist :: "(nat \<Rightarrow> uint) \<Rightarrow> stoch_state \<Rightarrow> stoch_state" where
  "words_stoch_hist obj s =
     s\<lparr>hist_data := (\<lambda>j. words_hist (\<lambda>a. obj (257 * unat j + a))),
       hist_total := obj (256 * 257)\<rparr>"

definition sizeof_stoch_hist :: nat where
  "sizeof_stoch_hist = 256 * sizeof_stoch_hist_t + 4"

text \<open>
  \<^verbatim>\<open>stoch_hist_clear\<close> is \<^verbatim>\<open>memset( h, sizeof(struct _stoch_hist), 0 )\<close> and
  \<^verbatim>\<open>stoch_hists_clear\<close> is \<^verbatim>\<open>memset( &stoch_hist, sizeof(stoch_hist), 0 )\<close>
  (the \<^verbatim>\<open>#else\<close> branch is the one compiled): the arguments are passed in this order,
  the size as the fill value and 0 as the number of bytes.
\<close>

definition stoch_hist_clear :: "stoch_hist_t \<Rightarrow> stoch_hist_t" where
  "stoch_hist_clear h = words_hist (memset (hist_words h) (int sizeof_stoch_hist_t) 0)"

definition stoch_hists_clear :: "stoch_state \<Rightarrow> stoch_state" where
  "stoch_hists_clear s =
     words_stoch_hist (memset (stoch_hist_words s) (int sizeof_stoch_hist) 0) s"

text \<open>
  The module as loaded: its statics are zero-initialised (\<^verbatim>\<open>stoch_prev\<close> explicitly),
  and \<^verbatim>\<open>stoch_init\<close> calls \<^verbatim>\<open>stoch_hists_clear\<close>. The argument is the state of the
  kernel's random source at that moment.
\<close>

definition statics :: "(nat \<Rightarrow> byte) \<Rightarrow> stoch_state" where
  "statics e =
     \<lparr>hist_data = (\<lambda>_. \<lparr>h_data = (\<lambda>_. 0), h_total = 0\<rparr>), hist_total = 0,
      stoch_prev = 0, entropy = e\<rparr>"

definition stoch_init :: "(nat \<Rightarrow> byte) \<Rightarrow> stoch_state" where
  "stoch_init e = stoch_hists_clear (statics e)"

subsection \<open>The random source\<close>

text \<open>
  \<^verbatim>\<open>get_random_bytes( &v, n )\<close> fills the \<open>n\<close> bytes of \<open>v\<close> from the source. The
  bytes read and the rest of the source are returned; \<open>le_word\<close> is the value of the
  variable they fill (least significant byte first).
\<close>

definition skip_bytes :: "nat \<Rightarrow> (nat \<Rightarrow> byte) \<Rightarrow> (nat \<Rightarrow> byte)" where
  "skip_bytes n e = (\<lambda>k. e (k + n))"

definition get_random_bytes :: "nat \<Rightarrow> (nat \<Rightarrow> byte) \<Rightarrow> byte list \<times> (nat \<Rightarrow> byte)" where
  "get_random_bytes n e = (map e [0..<n], skip_bytes n e)"

definition le_word :: "byte list \<Rightarrow> 'a::len word" where
  "le_word bs = foldr (\<lambda>b w. ucast b + 256 * w) bs 0"

text \<open>A source that yields the given bytes and then zeros, for running the code.\<close>

definition entropy_of :: "byte list \<Rightarrow> nat \<Rightarrow> byte" where
  "entropy_of bs = (\<lambda>k. if k < length bs then bs ! k else 0)"

subsection \<open>Sampling one byte from a histogram\<close>

text \<open>
  The \<^verbatim>\<open>for\<close> loop of \<^verbatim>\<open>stoch_hist_val\<close>. Its counter \<open>i\<close> is an \<^verbatim>\<open>unsigned char\<close>:
  the test \<^verbatim>\<open>i < STOCH_HIST_SIZE\<close> compares it with 256 and \<^verbatim>\<open>i++\<close> wraps from 255
  to 0, so the loop ends only through the \<^verbatim>\<open>break\<close>. A run that never ends is \<open>None\<close>.
\<close>

partial_function (option) val_loop ::
  "stoch_hist_t \<Rightarrow> uint \<Rightarrow> uint \<Rightarrow> byte \<Rightarrow> byte \<Rightarrow> byte option" where
  "val_loop h p tot val i =
     (if uint i < 256 then
        (let tot' = tot + h_data h i; val' = i in
         if tot' \<ge> p then Some val' else val_loop h p tot' val' (i + 1))
      else Some val)"

text \<open>
  \<^verbatim>\<open>stoch_hist_val( h, prev )\<close>: 0 for an empty histogram, without reading the random
  source; else four random bytes \<open>j\<close>, then \<^verbatim>\<open>p = (unsigned char)(j % h->total)\<close> and
  the loop. (\<open>prev\<close> is only printed, in the debug build.)
\<close>

definition stoch_hist_val ::
  "stoch_hist_t \<Rightarrow> byte \<Rightarrow> (nat \<Rightarrow> byte) \<Rightarrow> (byte \<times> (nat \<Rightarrow> byte)) option" where
  "stoch_hist_val h prev e =
     (if h_total h = 0 then Some (0, e)
      else
        let (bs, e') = get_random_bytes 4 e;
            j = le_word bs :: uint;
            p = ucast (ucast (j mod h_total h) :: byte) :: uint
        in case val_loop h p 0 0 0 of
             None \<Rightarrow> None
           | Some val \<Rightarrow> Some (val, e'))"

subsection \<open>Generating a buffer\<close>

text \<open>
  The first loop of \<^verbatim>\<open>stoch_hist_gen\<close>, which chooses the starting histogram:
  \<open>j\<close> and \<open>tot\<close> are \<^verbatim>\<open>size_t\<close>, \<^verbatim>\<open>prev = j\<close> truncates to a byte.
\<close>

function start_loop :: "(byte \<Rightarrow> stoch_hist_t) \<Rightarrow> size_t \<Rightarrow> size_t \<Rightarrow> byte \<Rightarrow> nat \<Rightarrow> byte" where
  "start_loop hs i tot prev j =
     (if j < 256 then
        (let tot' = tot + ucast (h_total (hs (of_nat j))); prev' = of_nat j in
         if tot' \<ge> i then prev' else start_loop hs i tot' prev' (j + 1))
      else prev)"
  by pat_completeness auto
termination
  by (relation "measure (\<lambda>(hs, i, tot, prev, j). 256 - j)") auto

declare start_loop.simps [simp del]

text \<open>
  The second loop, from position \<open>i\<close> on. \<open>sz\<close> is the \<^verbatim>\<open>size_t\<close> argument \<^verbatim>\<open>size\<close> (below
  \<open>2 ^ 64\<close>) and \<open>pos\<close> the \<^verbatim>\<open>int\<close> variable: \<^verbatim>\<open>pos == size\<close> converts \<open>pos\<close> to
  \<^verbatim>\<open>size_t\<close> with sign extension, \<^verbatim>\<open>pos = i\<close> truncates \<open>i\<close> to 32 bits. \<open>buff\<close> is the
  caller's buffer of \<open>sz\<close> bytes.

  \<open>smp\<close> is a history variable, which the C code does not have: the values that the
  calls of \<^verbatim>\<open>stoch_hist_val\<close> have returned so far, in order. Nothing is computed
  from it.
\<close>

function gen_loop ::
  "nat \<Rightarrow> nat \<Rightarrow> 32 word \<Rightarrow> byte \<Rightarrow> byte list \<Rightarrow> byte list \<Rightarrow> stoch_state
   \<Rightarrow> (byte list \<times> 32 word \<times> byte list \<times> stoch_state) option" where
  "gen_loop sz i pos prev buff smp s =
     (if i < sz then
        (if (scast pos :: size_t) = of_nat sz then
           (case stoch_hist_val (hist_data s prev) prev (entropy s) of
              None \<Rightarrow> None
            | Some (v, e') \<Rightarrow>
                (let buff' = buff[i := v];
                     prev' = buff' ! i;
                     pos' = (if buff' ! i = 0 then of_nat i else pos)
                 in gen_loop sz (i + 1) pos' prev' buff' (smp @ [v]) (s\<lparr>entropy := e'\<rparr>)))
         else gen_loop sz (i + 1) pos prev (buff[i := 0]) smp s)
      else Some (buff, pos, smp, s))"
  by pat_completeness auto
termination
  by (relation "measure (\<lambda>(sz, i, pos, prev, buff, smp, s). sz - i)") auto

declare gen_loop.simps [simp del]

text \<open>
  \<^verbatim>\<open>stoch_hist_gen( buff, size )\<close>. \<^verbatim>\<open>int pos = size\<close> truncates \<^verbatim>\<open>size\<close> to 32 bits;
  the random \<open>i\<close> is a \<^verbatim>\<open>size_t\<close> of eight bytes, reduced modulo \<^verbatim>\<open>stoch_hist.total\<close>.
  The result is the buffer, the returned \<^verbatim>\<open>size_t\<close> (\<open>pos\<close> sign-extended), the
  history of sampled values, and the state afterwards.
\<close>

definition stoch_hist_gen ::
  "byte list \<Rightarrow> nat \<Rightarrow> stoch_state \<Rightarrow> (byte list \<times> size_t \<times> byte list \<times> stoch_state) option" where
  "stoch_hist_gen buff sz s =
     (let (pos, prev, e') =
            (if hist_total s = 0 then (0, 0, entropy s)
             else
               let (bs, e') = get_random_bytes 8 (entropy s);
                   i = (le_word bs :: size_t) mod ucast (hist_total s)
               in (of_nat sz, start_loop (hist_data s) i 0 0 0, e'))
      in case gen_loop sz 0 pos prev buff [] (s\<lparr>entropy := e'\<rparr>) of
           None \<Rightarrow> None
         | Some (buff', pos', smp, s') \<Rightarrow> Some (buff', scast pos', smp, s'))"

subsection \<open>Well-formed states\<close>

text \<open>
  Each histogram's \<open>total\<close> is the sum of its counts and the global total is the sum
  of the histograms' totals, all in \<^verbatim>\<open>unsigned int\<close> arithmetic.
\<close>

definition hist_ok :: "stoch_hist_t \<Rightarrow> bool" where
  "hist_ok h \<longleftrightarrow> h_total h = (\<Sum>x\<in>UNIV. h_data h x)"

definition state_ok :: "stoch_state \<Rightarrow> bool" where
  "state_ok s \<longleftrightarrow>
     (\<forall>c. hist_ok (hist_data s c)) \<and> hist_total s = (\<Sum>c\<in>UNIV. h_total (hist_data s c))"

text \<open>
  The same equations between the unbounded values of the counters: they say that no
  counter has wrapped around.
\<close>

definition state_exact :: "stoch_state \<Rightarrow> bool" where
  "state_exact s \<longleftrightarrow>
     (\<forall>c. unat (h_total (hist_data s c)) = (\<Sum>x\<in>UNIV. unat (h_data (hist_data s c) x)))
     \<and> unat (hist_total s) = (\<Sum>c\<in>UNIV. unat (h_total (hist_data s c)))"

subsection \<open>States on which the code is run\<close>

text \<open>
  The module just loaded, and the module after one write of a few bytes. The random
  source of \<open>trained_111\<close> yields the \<^verbatim>\<open>size_t\<close> 2 and then the \<^verbatim>\<open>unsigned int\<close> 1.
\<close>

definition fresh :: stoch_state where
  "fresh = stoch_init (entropy_of [])"

definition trained_111 :: stoch_state where
  "trained_111 =
     snd (stoch_write [1, 1, 1] (stoch_init (entropy_of [2, 0, 0, 0, 0, 0, 0, 0, 1, 0, 0, 0])))"

definition trained_12 :: stoch_state where
  "trained_12 = snd (stoch_write [1, 2] fresh)"

definition trained_11112 :: stoch_state where
  "trained_11112 = snd (stoch_write [1, 1, 1, 1, 2] fresh)"

definition trained_301 :: stoch_state where
  "trained_301 = snd (stoch_write (replicate 301 1) fresh)"

text \<open>
  The module after two writes, of one byte and of \<open>2 ^ 32 - 1\<close> bytes: \<open>2 ^ 32\<close> bytes
  of value 1 in all.
\<close>

definition wrapped :: stoch_state where
  "wrapped = stoch_writes [[1], replicate 4294967295 1] fresh"

section \<open>Basic facts\<close>

subsection \<open>Clearing, training and the well-formed states\<close>

lemma memset_zero: "memset obj c 0 = obj"
  by (simp add: memset_def fill_bytes_def fun_eq_iff)

lemma byte_unat_less: "unat (x :: byte) < 256"
  using unsigned_less [of x, where 'a = nat] by simp

lemma words_hist_inv: "words_hist (hist_words h) = h"
  by (simp add: words_hist_def hist_words_def byte_unat_less)

lemma stoch_hist_words_at:
  "a \<le> 256 \<Longrightarrow> stoch_hist_words s (257 * unat (j :: byte) + a) = hist_words (hist_data s j) a"
proof -
  assume a: "a \<le> 256"
  have j: "unat j < 256" by (rule byte_unat_less)
  then have "257 * unat j + a < 256 * 257" using a by simp
  moreover have "(257 * unat j + a) div 257 = unat j" using a by simp
  moreover have "(257 * unat j + a) mod 257 = a" using a by simp
  ultimately show ?thesis by (simp add: stoch_hist_words_def)
qed

lemma words_stoch_hist_inv: "words_stoch_hist (stoch_hist_words s) s = s"
proof -
  have "words_hist (\<lambda>a. stoch_hist_words s (257 * unat j + a)) = hist_data s j" for j
  proof -
    have "words_hist (\<lambda>a. stoch_hist_words s (257 * unat j + a)) = words_hist (hist_words (hist_data s j))"
      unfolding words_hist_def
      using byte_unat_less by (simp add: stoch_hist_words_at less_imp_le)
    then show ?thesis by (simp add: words_hist_inv)
  qed
  moreover have "stoch_hist_words s (256 * 257) = hist_total s"
    by (simp add: stoch_hist_words_def)
  ultimately show ?thesis by (simp add: words_stoch_hist_def)
qed

lemma stoch_hist_clear_id: "stoch_hist_clear h = h"
  by (simp add: stoch_hist_clear_def memset_zero words_hist_inv)

lemma stoch_hists_clear_id: "stoch_hists_clear s = s"
  by (simp add: stoch_hists_clear_def memset_zero words_stoch_hist_inv)

lemma stoch_init_statics: "stoch_init e = statics e"
  by (simp add: stoch_init_def stoch_hists_clear_id)

lemma write_loop_append: "write_loop (a @ b) s = write_loop b (write_loop a s)"
  by (induction a arbitrary: s) simp_all

lemma stoch_hist_update_eq:
  "stoch_hist_update c x s =
     s\<lparr>hist_data := (hist_data s)(c := (hist_data s c)\<lparr>h_data := (h_data (hist_data s c))(x := h_data (hist_data s c) x + 1),
            h_total := h_total (hist_data s c) + 1\<rparr>), hist_total := hist_total s + 1\<rparr>"
proof -
  have "uint x < 256" using unsigned_less [of x, where 'a = int] by simp
  then show ?thesis by (simp add: stoch_hist_update_def Let_def)
qed

lemma sum_fun_upd_word:
  fixes f :: "'a::finite \<Rightarrow> 'b::comm_monoid_add"
  shows "(\<Sum>y\<in>UNIV. (f(x := v)) y) = v + (\<Sum>y\<in>UNIV - {x}. f y)"
proof -
  have "(\<Sum>y\<in>UNIV. (f(x := v)) y) = (f(x := v)) x + (\<Sum>y\<in>UNIV - {x}. (f(x := v)) y)"
    by (rule sum.remove) simp_all
  also have "(\<Sum>y\<in>UNIV - {x}. (f(x := v)) y) = (\<Sum>y\<in>UNIV - {x}. f y)"
    by (rule sum.cong) simp_all
  finally show ?thesis by simp
qed

lemma sum_split_at:
  fixes f :: "'a::finite \<Rightarrow> 'b::comm_monoid_add"
  shows "(\<Sum>y\<in>UNIV. f y) = f x + (\<Sum>y\<in>UNIV - {x}. f y)"
  by (rule sum.remove) simp_all

lemma hist_ok_bump:
  "hist_ok h \<Longrightarrow> hist_ok (h\<lparr>h_data := (h_data h)(x := h_data h x + 1), h_total := h_total h + 1\<rparr>)"
proof -
  assume ok: "hist_ok h"
  have "sum ((h_data h)(x := h_data h x + 1)) UNIV = h_data h x + 1 + sum (h_data h) (UNIV - {x})"
    by (rule sum_fun_upd_word)
  also have "\<dots> = sum (h_data h) UNIV + 1"
    using sum_split_at [of "h_data h" x] by simp
  finally show ?thesis using ok by (simp add: hist_ok_def)
qed

lemma state_ok_update: "state_ok s \<Longrightarrow> state_ok (stoch_hist_update c x s)"
proof -
  assume ok: "state_ok s"
  let ?h' = "(hist_data s c)\<lparr>h_data := (h_data (hist_data s c))(x := h_data (hist_data s c) x + 1),
            h_total := h_total (hist_data s c) + 1\<rparr>"
  have 1: "hist_ok ?h'" using ok by (simp add: state_ok_def hist_ok_bump)
  have "(\<Sum>d\<in>UNIV. h_total (((hist_data s)(c := ?h')) d)) = (\<Sum>d\<in>UNIV. ((\<lambda>d. h_total (hist_data s d))(c := h_total ?h')) d)"
    by (rule sum.cong) simp_all
  also have "\<dots> = h_total ?h' + (\<Sum>d\<in>UNIV - {c}. h_total (hist_data s d))"
    by (rule sum_fun_upd_word)
  also have "\<dots> = (\<Sum>d\<in>UNIV. h_total (hist_data s d)) + 1"
    by (simp add: sum_split_at [of "\<lambda>d. h_total (hist_data s d)" c])
  finally have 2: "(\<Sum>d\<in>UNIV. h_total (((hist_data s)(c := ?h')) d)) = hist_total s + 1"
    using ok by (simp add: state_ok_def)
  show ?thesis
    unfolding stoch_hist_update_eq state_ok_def
    using ok 1 2 by (simp add: state_ok_def)
qed

lemma state_ok_statics: "state_ok (statics e)"
  by (simp add: state_ok_def hist_ok_def statics_def)

lemma state_ok_prev: "state_ok (s\<lparr>stoch_prev := x\<rparr>) = state_ok s"
  by (simp add: state_ok_def)

lemma state_ok_entropy: "state_ok (s\<lparr>entropy := e\<rparr>) = state_ok s"
  by (simp add: state_ok_def)

lemma state_ok_write_loop: "state_ok s \<Longrightarrow> state_ok (write_loop buf s)"
  by (induction buf arbitrary: s) (simp_all add: state_ok_update state_ok_prev)

lemma state_ok_stoch_writes: "state_ok s \<Longrightarrow> state_ok (stoch_writes bufs s)"
  by (induction bufs arbitrary: s) (simp_all add: stoch_write_def state_ok_write_loop)

lemma write_replicate:
  "stoch_prev s = x \<Longrightarrow>
   hist_data (write_loop (replicate n x) s) x =
     (hist_data s x)\<lparr>h_data := (h_data (hist_data s x))(x := h_data (hist_data s x) x + of_nat n),
            h_total := h_total (hist_data s x) + of_nat n\<rparr>"
proof (induction n arbitrary: s)
  case 0
  then show ?case by simp
next
  case (Suc n)
  define s1 where "s1 = (stoch_hist_update x x s)\<lparr>stoch_prev := x\<rparr>"
  define h where "h = hist_data s x"
  define h1 where "h1 = hist_data s1 x"
  have h1: "h1 = h\<lparr>h_data := (h_data h)(x := h_data h x + 1), h_total := h_total h + 1\<rparr>"
    by (simp add: h1_def h_def s1_def stoch_hist_update_eq)
  have "stoch_prev s1 = x" by (simp add: s1_def)
  then have "hist_data (write_loop (replicate n x) s1) x =
     h1\<lparr>h_data := (h_data h1)(x := h_data h1 x + of_nat n), h_total := h_total h1 + of_nat n\<rparr>"
    unfolding h1_def by (rule Suc.IH)
  also have "\<dots> = h\<lparr>h_data := (h_data h)(x := h_data h x + of_nat (Suc n)),
                       h_total := h_total h + of_nat (Suc n)\<rparr>"
    by (simp add: h1 add.assoc)
  finally have r: "hist_data (write_loop (replicate n x) s1) x =
      h\<lparr>h_data := (h_data h)(x := h_data h x + of_nat (Suc n)), h_total := h_total h + of_nat (Suc n)\<rparr>" .
  have step: "write_loop (replicate (Suc n) x) s = write_loop (replicate n x) s1"
    using Suc.prems by (simp add: s1_def)
  show ?case unfolding step using r unfolding h_def .
qed


subsection \<open>The sampling loop ends on a well-formed histogram\<close>

lemma byte_uint_less: "uint (x :: byte) < 256"
  using unsigned_less [of x, where 'a = int] by simp

lemma sum_byte_nat:
  fixes f :: "byte \<Rightarrow> 'b::comm_monoid_add"
  shows "(\<Sum>x\<in>UNIV. f x) = (\<Sum>m = 0..255. f (of_nat m))"
proof -
  have inj: "inj_on (of_nat :: nat \<Rightarrow> byte) {0..255}"
  proof (rule inj_onI)
    fix a b :: nat
    assume "a \<in> {0..255}" "b \<in> {0..255}" "(of_nat a :: byte) = of_nat b"
    then have "unat (of_nat a :: byte) = unat (of_nat b :: byte)" "a < 256" "b < 256" by simp_all
    then show "a = b" by (simp add: unat_of_nat)
  qed
  have img: "(of_nat :: nat \<Rightarrow> byte) ` {0..255} = UNIV"
  proof -
    have "x \<in> of_nat ` {0..255}" for x :: byte
    proof -
      have "unat x \<in> {0..255}" using byte_unat_less [of x] by simp
      moreover have "x = of_nat (unat x)" by simp
      ultimately show ?thesis by (rule rev_image_eqI)
    qed
    then show ?thesis by auto
  qed
  have "(\<Sum>m = 0..255. f (of_nat m)) = sum f (of_nat ` {0..255})"
    using inj by (simp add: sum.reindex)
  then show ?thesis by (simp add: img)
qed

lemma val_loop_Some:
  "unat i \<le> k \<Longrightarrow> k < 256 \<Longrightarrow> p \<le> tot + (\<Sum>m = unat i..k. h_data h (of_nat m))
   \<Longrightarrow> \<exists>v. val_loop h p tot val i = Some v"
proof (induction "k - unat i" arbitrary: i tot val)
  case 0
  then have ki: "k = unat i" by simp
  then have "p \<le> tot + h_data h i" using "0.prems" by simp
  then show ?case by (subst val_loop.simps) (simp add: byte_uint_less)
next
  case (Suc d)
  show ?case
  proof (cases "p \<le> tot + h_data h i")
    case True
    then show ?thesis by (subst val_loop.simps) (simp add: byte_uint_less)
  next
    case False
    have lt: "unat i < k" using Suc.hyps by simp
    then have "unat i + 1 < 256" using Suc.prems by simp
    then have un: "unat (i + 1) = unat i + 1"
      by (simp add: unat_word_ariths)
    have "(\<Sum>m = unat i..k. h_data h (of_nat m)) = h_data h i + (\<Sum>m = unat (i + 1)..k. h_data h (of_nat m))"
      using lt un by (simp add: sum.atLeast_Suc_atMost)
    then have "p \<le> (tot + h_data h i) + (\<Sum>m = unat (i + 1)..k. h_data h (of_nat m))"
      using Suc.prems by (simp add: add.assoc)
    moreover have "d = k - unat (i + 1)" using Suc.hyps un by simp
    moreover have "unat (i + 1) \<le> k" using lt un by simp
    ultimately have "\<exists>v. val_loop h p (tot + h_data h i) i (i + 1) = Some v"
      using Suc.hyps(1) Suc.prems(2) by blast
    then show ?thesis using False by (subst val_loop.simps) (simp add: byte_uint_less)
  qed
qed

lemma ucast_byte_le: "(ucast (ucast (w :: uint) :: byte) :: uint) \<le> w"
  by (simp add: word_le_nat_alt unsigned_ucast_eq unsigned_take_bit_eq)

lemma stoch_hist_val_Some:
  assumes "hist_ok h"
  shows "\<exists>v e'. stoch_hist_val h prev e = Some (v, e')"
proof (cases "h_total h = 0")
  case True
  then show ?thesis by (simp add: stoch_hist_val_def)
next
  case False
  define j :: uint where "j = le_word (fst (get_random_bytes 4 e))"
  define p :: uint where "p = ucast (ucast (j mod h_total h) :: byte)"
  have "p \<le> j mod h_total h" unfolding p_def by (rule ucast_byte_le)
  also have "j mod h_total h < h_total h" using False
    by (simp add: word_mod_less_divisor word_neq_0_conv)
  finally have "p \<le> h_total h" by simp
  then have "p \<le> 0 + (\<Sum>m = unat (0 :: byte)..255. h_data h (of_nat m))"
    using assms by (simp add: hist_ok_def sum_byte_nat)
  then obtain v where "val_loop h p 0 0 0 = Some v"
    using val_loop_Some [of 0 255 p 0 h 0] by auto
  then show ?thesis using False
    by (simp add: stoch_hist_val_def Let_def split_def j_def p_def)
qed

text \<open>
  What the loop returns on a well-formed histogram: the first symbol whose running sum
  of counts reaches \<open>p\<close>, the draw \<^verbatim>\<open>j % h->total\<close> cut to its low 8 bits. For a total
  of at most 256 the cut changes nothing.
\<close>

lemma val_loop_first:
  "unat i \<le> k \<Longrightarrow> k < 256 \<Longrightarrow> p \<le> tot + (\<Sum>m = unat i..k. h_data h (of_nat m)) \<Longrightarrow>
   \<forall>k'. unat i \<le> k' \<and> k' < k \<longrightarrow> \<not> p \<le> tot + (\<Sum>m = unat i..k'. h_data h (of_nat m)) \<Longrightarrow>
   val_loop h p tot val i = Some (of_nat k)"
proof (induction "k - unat i" arbitrary: i tot val)
  case 0
  then have ki: "k = unat i" by simp
  then have "p \<le> tot + h_data h i" using "0.prems" by simp
  then show ?case using ki by (subst val_loop.simps) (simp add: byte_uint_less)
next
  case (Suc d)
  have lt: "unat i < k" using Suc.hyps by simp
  then have "\<not> p \<le> tot + (\<Sum>m = unat i..unat i. h_data h (of_nat m))"
    using Suc.prems(4) by blast
  then have no: "\<not> p \<le> tot + h_data h i" by simp
  have "unat i + 1 < 256" using lt Suc.prems by simp
  then have un: "unat (i + 1) = unat i + 1"
    by (simp add: unat_word_ariths)
  have split: "(\<Sum>m = unat i..k'. h_data h (of_nat m)) = h_data h i + (\<Sum>m = unat (i + 1)..k'. h_data h (of_nat m))"
    if "unat i < k'" for k'
    using that un by (simp add: sum.atLeast_Suc_atMost)
  have 1: "p \<le> (tot + h_data h i) + (\<Sum>m = unat (i + 1)..k. h_data h (of_nat m))"
    using Suc.prems(3) split [OF lt] by (simp add: add.assoc)
  have 2: "\<forall>k'. unat (i + 1) \<le> k' \<and> k' < k \<longrightarrow>
             \<not> p \<le> (tot + h_data h i) + (\<Sum>m = unat (i + 1)..k'. h_data h (of_nat m))"
  proof (intro allI impI)
    fix k' assume k': "unat (i + 1) \<le> k' \<and> k' < k"
    then have "unat i < k'" using un by simp
    moreover have "\<not> p \<le> tot + (\<Sum>m = unat i..k'. h_data h (of_nat m))"
      using Suc.prems(4) k' un by simp
    ultimately show "\<not> p \<le> (tot + h_data h i) + (\<Sum>m = unat (i + 1)..k'. h_data h (of_nat m))"
      using split [of k'] by (simp add: add.assoc)
  qed
  have "d = k - unat (i + 1)" using Suc.hyps un by simp
  moreover have "unat (i + 1) \<le> k" using lt un by simp
  ultimately have "val_loop h p (tot + h_data h i) i (i + 1) = Some (of_nat k)"
    using Suc.hyps(1) Suc.prems(2) 1 2 by blast
  then show ?case using no by (subst val_loop.simps) (simp add: byte_uint_less)
qed

lemma stoch_hist_val_first:
  assumes ok: "hist_ok h" and ne: "h_total h \<noteq> 0"
  defines "p \<equiv> \<lambda>e. (ucast (ucast ((le_word (fst (get_random_bytes 4 e)) :: uint) mod h_total h) :: byte) :: uint)"
  shows "\<exists>k<256. stoch_hist_val h prev e = Some (of_nat k, skip_bytes 4 e)
           \<and> p e \<le> (\<Sum>m = 0..k. h_data h (of_nat m))
           \<and> (\<forall>k'<k. \<not> p e \<le> (\<Sum>m = 0..k'. h_data h (of_nat m)))"
proof -
  define j :: uint where "j = le_word (fst (get_random_bytes 4 e))"
  have pe: "p e = ucast (ucast (j mod h_total h) :: byte)" by (simp add: p_def j_def)
  have "p e \<le> j mod h_total h" unfolding pe by (rule ucast_byte_le)
  also have "j mod h_total h < h_total h" using ne
    by (simp add: word_mod_less_divisor word_neq_0_conv)
  finally have "p e \<le> (\<Sum>m = 0..255. h_data h (of_nat m))"
    using ok by (simp add: hist_ok_def sum_byte_nat)
  then have ex: "\<exists>k. k < 256 \<and> p e \<le> (\<Sum>m = 0..k. h_data h (of_nat m))"
    by (intro exI [of _ 255]) simp
  define k where "k = (LEAST k. k < 256 \<and> p e \<le> (\<Sum>m = 0..k. h_data h (of_nat m)))"
  have k: "k < 256 \<and> p e \<le> (\<Sum>m = 0..k. h_data h (of_nat m))"
    unfolding k_def using ex by (rule LeastI_ex)
  have least: "\<not> p e \<le> (\<Sum>m = 0..k'. h_data h (of_nat m))" if "k' < k" for k'
  proof
    assume "p e \<le> (\<Sum>m = 0..k'. h_data h (of_nat m))"
    then have "k' < 256 \<and> p e \<le> (\<Sum>m = 0..k'. h_data h (of_nat m))" using that k by simp
    then have "k \<le> k'" unfolding k_def by (rule Least_le)
    then show False using that by simp
  qed
  have "val_loop h (p e) 0 0 0 = Some (of_nat k)"
    using k least by (intro val_loop_first) simp_all
  then have "stoch_hist_val h prev e = Some (of_nat k, skip_bytes 4 e)"
    using ne by (simp add: stoch_hist_val_def get_random_bytes_def pe j_def)
  then show ?thesis using k least by blast
qed

lemma draw_fits_byte:
  assumes "h_total h \<noteq> 0" "unat (h_total h) \<le> 256"
  shows "(ucast (ucast ((j :: uint) mod h_total h) :: byte) :: uint) = j mod h_total h"
proof -
  have "j mod h_total h < h_total h" using assms(1)
    by (simp add: word_mod_less_divisor word_neq_0_conv)
  then have "unat (j mod h_total h) < 256" using assms(2)
    by (simp add: word_less_nat_alt)
  then have "take_bit 8 (unat (j mod h_total h)) = unat (j mod h_total h)"
    by (simp add: take_bit_nat_eq_self)
  then show ?thesis
    by (simp add: word_unat_eq_iff unsigned_ucast_eq unsigned_take_bit_eq)
qed

subsection \<open>The generation loop\<close>

lemma sint_of_nat_small: "n < 2 ^ 31 \<Longrightarrow> sint (of_nat n :: 32 word) = int n"
proof -
  assume "n < 2 ^ 31"
  then have "int n < 2 ^ 31" by simp
  then have "signed_take_bit 31 (int n) = int n"
    by (simp add: signed_take_bit_int_eq_self)
  then show ?thesis by (simp add: signed_of_nat)
qed

lemma scast_of_nat_small:
  "n < 2 ^ 31 \<Longrightarrow> (scast (of_nat n :: 32 word) :: size_t) = of_nat n"
  by (simp add: scast_eq sint_of_nat_small)

lemma of_nat_size_neq:
  "i < sz \<Longrightarrow> sz < 2 ^ 64 \<Longrightarrow> (of_nat i :: size_t) \<noteq> of_nat sz"
  by (simp add: word_of_nat_eq_iff take_bit_nat_eq_self)

lemma unat_of_nat_size: "n < 2 ^ 64 \<Longrightarrow> unat (of_nat n :: size_t) = n"
  by (simp add: unat_of_nat take_bit_nat_eq_self)

lemma gen_loop_inactive:
  "(scast pos :: size_t) \<noteq> of_nat sz \<Longrightarrow> length buff = sz \<Longrightarrow> i \<le> sz \<Longrightarrow>
   gen_loop sz i pos prev buff smp s = Some (take i buff @ replicate (sz - i) 0, pos, smp, s)"
proof (induction "sz - i" arbitrary: i buff)
  case 0
  then show ?case by (subst gen_loop.simps) simp
next
  case (Suc d)
  then have lt: "i < sz" by simp
  have "gen_loop sz (i + 1) pos prev (buff[i := 0]) smp s =
        Some (take (i + 1) (buff[i := 0]) @ replicate (sz - (i + 1)) 0, pos, smp, s)"
    using Suc by simp
  moreover have "take (i + 1) (buff[i := 0]) @ replicate (sz - (i + 1)) 0 = take i buff @ replicate (sz - i) 0"
  proof -
    have "take (i + 1) (buff[i := 0]) = take i buff @ [0]"
      using lt Suc.prems by (simp add: take_Suc_conv_app_nth)
    moreover have "replicate (sz - i) (0 :: byte) = 0 # replicate (sz - (i + 1)) 0"
      using lt by (cases "sz - i") simp_all
    ultimately show ?thesis by simp
  qed
  ultimately show ?case using lt Suc.prems by (subst gen_loop.simps) simp
qed

lemma gen_loop_frame:
  "gen_loop sz i pos prev buff smp s = Some (buf, pos', smp', s') \<Longrightarrow>
   \<exists>e'. s' = s\<lparr>entropy := e'\<rparr>"
proof (induction sz i pos prev buff smp s rule: gen_loop.induct)
  case (1 sz i pos prev buff smp s)
  show ?case
  proof (cases "i < sz")
    case False
    then have "s' = s" using "1.prems" by (subst (asm) gen_loop.simps) simp
    then have "s' = s\<lparr>entropy := entropy s\<rparr>" by simp
    then show ?thesis by blast
  next
    case lt: True
    show ?thesis
    proof (cases "(scast pos :: size_t) = of_nat sz")
      case False
      then have "gen_loop sz (i + 1) pos prev (buff[i := 0]) smp s = Some (buf, pos', smp', s')"
        using "1.prems" lt by (subst (asm) gen_loop.simps) simp
      then show ?thesis using "1.IH"(2) lt False by blast
    next
      case act: True
      show ?thesis
      proof (cases "stoch_hist_val (hist_data s prev) prev (entropy s)")
        case None
        then show ?thesis using "1.prems" lt act by (subst (asm) gen_loop.simps) simp
      next
        case (Some r)
        obtain v e1 where r: "r = (v, e1)" by (cases r)
        let ?b = "buff[i := v]"
        have "gen_loop sz (i + 1) (if ?b ! i = 0 then of_nat i else pos) (?b ! i) ?b (smp @ [v]) (s\<lparr>entropy := e1\<rparr>)
              = Some (buf, pos', smp', s')"
          using "1.prems" lt act Some r by (subst (asm) gen_loop.simps) (simp add: Let_def)
        then have "\<exists>e'. s' = s\<lparr>entropy := e1\<rparr>\<lparr>entropy := e'\<rparr>"
          by (rule "1.IH"(1) [OF lt act Some r [symmetric] refl refl refl])
        then show ?thesis by auto
      qed
    qed
  qed
qed

lemma gen_loop_step_active:
  assumes "i < sz" "(scast pos :: size_t) = of_nat sz"
    and "stoch_hist_val (hist_data s prev) prev (entropy s) = Some (v, e1)"
    and "i < length buff"
  shows "gen_loop sz i pos prev buff smp s =
         gen_loop sz (i + 1) (if v = 0 then of_nat i else pos) v (buff[i := v]) (smp @ [v]) (s\<lparr>entropy := e1\<rparr>)"
  using assms by (subst gen_loop.simps) (simp add: Let_def)

lemma gen_loop_active:
  assumes "\<forall>c. hist_ok (hist_data s c)" "sz < 2 ^ 31" "length buff = sz" "i \<le> sz"
  shows "\<exists>smp' pos' e'.
           gen_loop sz i (of_nat sz) prev buff smp s =
             Some (take i buff @ smp' @ replicate (sz - i - length smp') 0, pos', smp @ smp', s\<lparr>entropy := e'\<rparr>)
           \<and> length smp' \<le> sz - i \<and> 0 \<notin> set (butlast smp')
           \<and> (if 0 \<in> set smp' then pos' = of_nat (i + length smp' - 1)
               else length smp' = sz - i \<and> pos' = of_nat sz)"
  using assms
proof (induction "sz - i" arbitrary: i prev buff smp s)
  case 0
  then have "i = sz" by simp
  then have "gen_loop sz i (of_nat sz) prev buff smp s = Some (buff, of_nat sz, smp, s\<lparr>entropy := entropy s\<rparr>)"
    by (subst gen_loop.simps) simp
  then show ?case using "0.prems" \<open>i = sz\<close>
    by (intro exI [of _ "[]"] exI [of _ "of_nat sz"] exI [of _ "entropy s"]) simp
next
  case (Suc d)
  then have lt: "i < sz" by simp
  have act: "(scast (of_nat sz :: 32 word) :: size_t) = of_nat sz"
    using Suc.prems by (simp add: scast_of_nat_small)
  obtain v e1 where val: "stoch_hist_val (hist_data s prev) prev (entropy s) = Some (v, e1)"
    using stoch_hist_val_Some Suc.prems(1) by blast
  let ?b = "buff[i := v]"
  let ?s1 = "s\<lparr>entropy := e1\<rparr>"
  have step: "gen_loop sz i (of_nat sz) prev buff smp s =
              gen_loop sz (i + 1) (if v = 0 then of_nat i else of_nat sz) v ?b (smp @ [v]) ?s1"
    using lt act val Suc.prems by (intro gen_loop_step_active) simp_all
  have tk: "take (i + 1) ?b = take i buff @ [v]"
    using lt Suc.prems by (simp add: take_Suc_conv_app_nth)
  show ?case
  proof (cases "v = 0")
    case True
    have "i < 2 ^ 31" using lt Suc.prems by simp
    then have "(scast (of_nat i :: 32 word) :: size_t) = of_nat i"
      by (rule scast_of_nat_small)
    moreover have "(of_nat i :: size_t) \<noteq> of_nat sz"
      using lt Suc.prems by (intro of_nat_size_neq) simp_all
    ultimately have "(scast (of_nat i :: 32 word) :: size_t) \<noteq> of_nat sz" by simp
    then have "gen_loop sz (i + 1) (of_nat i) v ?b (smp @ [v]) ?s1 =
               Some (take (i + 1) ?b @ replicate (sz - (i + 1)) 0, of_nat i, smp @ [v], ?s1)"
      using lt Suc.prems by (intro gen_loop_inactive) simp_all
    then have "gen_loop sz i (of_nat sz) prev buff smp s =
               Some (take i buff @ [0] @ replicate (sz - i - length [0 :: byte]) 0, of_nat i, smp @ [0], ?s1)"
      using step True tk by simp
    then show ?thesis using lt
      by (intro exI [of _ "[0]"] exI [of _ "of_nat i"] exI [of _ e1]) simp
  next
    case False
    have "\<exists>smp' pos' e'.
           gen_loop sz (i + 1) (of_nat sz) v ?b (smp @ [v]) ?s1 =
             Some (take (i + 1) ?b @ smp' @ replicate (sz - (i + 1) - length smp') 0, pos', (smp @ [v]) @ smp', ?s1\<lparr>entropy := e'\<rparr>)
           \<and> length smp' \<le> sz - (i + 1) \<and> 0 \<notin> set (butlast smp')
           \<and> (if 0 \<in> set smp' then pos' = of_nat ((i + 1) + length smp' - 1)
               else length smp' = sz - (i + 1) \<and> pos' = of_nat sz)"
      using Suc.hyps Suc.prems lt by (intro Suc.hyps(1)) simp_all
    then obtain smp' pos' e' where
      r: "gen_loop sz (i + 1) (of_nat sz) v ?b (smp @ [v]) ?s1 =
             Some (take (i + 1) ?b @ smp' @ replicate (sz - (i + 1) - length smp') 0, pos', (smp @ [v]) @ smp', ?s1\<lparr>entropy := e'\<rparr>)"
      and l: "length smp' \<le> sz - (i + 1)" and b: "0 \<notin> set (butlast smp')"
      and p: "if 0 \<in> set smp' then pos' = of_nat ((i + 1) + length smp' - 1)
               else length smp' = sz - (i + 1) \<and> pos' = of_nat sz"
      by blast
    have "gen_loop sz i (of_nat sz) prev buff smp s =
            Some (take i buff @ (v # smp') @ replicate (sz - i - length (v # smp')) 0, pos', smp @ (v # smp'), s\<lparr>entropy := e'\<rparr>)"
      using step False r tk by simp
    moreover have "length (v # smp') \<le> sz - i" using l lt by simp
    moreover have "0 \<notin> set (butlast (v # smp'))" using b False by simp
    moreover have "if 0 \<in> set (v # smp') then pos' = of_nat (i + length (v # smp') - 1)
               else length (v # smp') = sz - i \<and> pos' = of_nat sz"
      using p False lt l by (auto split: if_splits)
    ultimately show ?thesis by blast
  qed
qed

lemma gen_loop_buff_indep:
  "length buff1 = sz \<Longrightarrow> length buff2 = sz \<Longrightarrow> \<forall>k<i. buff1 ! k = buff2 ! k \<Longrightarrow>
   gen_loop sz i pos prev buff1 smp s = gen_loop sz i pos prev buff2 smp s"
proof (induction "sz - i" arbitrary: i pos prev buff1 buff2 smp s)
  case 0
  then have "buff1 = buff2" by (intro nth_equalityI) simp_all
  then show ?case by simp
next
  case (Suc d)
  then have lt: "i < sz" by simp
  have upd: "\<forall>k<i + 1. buff1[i := v] ! k = buff2[i := v] ! k" for v
    using Suc.prems lt by (simp add: nth_list_update less_Suc_eq)
  show ?case
  proof (cases "(scast pos :: size_t) = of_nat sz")
    case False
    have "gen_loop sz (i + 1) pos prev (buff1[i := 0]) smp s = gen_loop sz (i + 1) pos prev (buff2[i := 0]) smp s"
      using Suc.hyps Suc.prems upd by (intro Suc.hyps(1)) simp_all
    then show ?thesis using lt False
      by (subst gen_loop.simps, subst (2) gen_loop.simps) simp
  next
    case act: True
    show ?thesis
    proof (cases "stoch_hist_val (hist_data s prev) prev (entropy s)")
      case None
      then show ?thesis using lt act
        by (subst gen_loop.simps, subst (2) gen_loop.simps) simp
    next
      case (Some r)
      obtain v e1 where r: "r = (v, e1)" by (cases r)
      have "gen_loop sz (i + 1) (if v = 0 then of_nat i else pos) v (buff1[i := v]) (smp @ [v]) (s\<lparr>entropy := e1\<rparr>)
          = gen_loop sz (i + 1) (if v = 0 then of_nat i else pos) v (buff2[i := v]) (smp @ [v]) (s\<lparr>entropy := e1\<rparr>)"
        using Suc.hyps Suc.prems upd by (intro Suc.hyps(1)) simp_all
      moreover have "gen_loop sz i pos prev buff1 smp s =
          gen_loop sz (i + 1) (if v = 0 then of_nat i else pos) v (buff1[i := v]) (smp @ [v]) (s\<lparr>entropy := e1\<rparr>)"
        using lt act Some r Suc.prems by (intro gen_loop_step_active) simp_all
      moreover have "gen_loop sz i pos prev buff2 smp s =
          gen_loop sz (i + 1) (if v = 0 then of_nat i else pos) v (buff2[i := v]) (smp @ [v]) (s\<lparr>entropy := e1\<rparr>)"
        using lt act Some r Suc.prems by (intro gen_loop_step_active) simp_all
      ultimately show ?thesis by simp
    qed
  qed
qed

lemma gen_loop_Some:
  "\<forall>c. hist_ok (hist_data s c) \<Longrightarrow> \<exists>r. gen_loop sz i pos prev buff smp s = Some r"
proof (induction "sz - i" arbitrary: i pos prev buff smp s)
  case 0
  then show ?case by (subst gen_loop.simps) simp
next
  case (Suc d)
  then have lt: "i < sz" by simp
  obtain v e1 where val: "stoch_hist_val (hist_data s prev) prev (entropy s) = Some (v, e1)"
    using stoch_hist_val_Some Suc.prems(1) by blast
  have "d = sz - (i + 1)" using Suc.hyps by simp
  then have "\<exists>r. gen_loop sz (i + 1) pos prev (buff[i := 0]) smp s = Some r"
       "\<exists>r. gen_loop sz (i + 1) (if buff[i := v] ! i = 0 then of_nat i else pos) (buff[i := v] ! i) (buff[i := v]) (smp @ [v])
             (s\<lparr>entropy := e1\<rparr>) = Some r"
    using Suc.hyps(1) Suc.prems by simp_all
  then show ?case using lt val by (subst gen_loop.simps) (simp add: Let_def)
qed

subsection \<open>Counters that have not wrapped\<close>

lemma unat_inc: "unat (w :: uint) + 1 < 2 ^ 32 \<Longrightarrow> unat (w + 1) = unat w + 1"
  by (simp add: unat_word_ariths)

lemma sum_unat_bump:
  fixes f :: "byte \<Rightarrow> uint"
  assumes "unat (f x) + 1 < 2 ^ 32"
  shows "(\<Sum>y\<in>UNIV. unat ((f(x := f x + 1)) y)) = (\<Sum>y\<in>UNIV. unat (f y)) + 1"
proof -
  have "(\<Sum>y\<in>UNIV. unat ((f(x := f x + 1)) y)) = sum ((\<lambda>y. unat (f y))(x := unat (f x + 1))) UNIV"
    by (rule sum.cong) simp_all
  also have "\<dots> = unat (f x + 1) + sum (\<lambda>y. unat (f y)) (UNIV - {x})"
    by (rule sum_fun_upd_word)
  also have "\<dots> = (\<Sum>y\<in>UNIV. unat (f y)) + 1"
    using assms sum_split_at [of "\<lambda>y. unat (f y)" x] by (simp add: unat_inc)
  finally show ?thesis .
qed

lemma sum_unat_ge:
  fixes f :: "byte \<Rightarrow> uint"
  shows "unat (f x) \<le> (\<Sum>y\<in>UNIV. unat (f y))"
  using sum_split_at [of "\<lambda>y. unat (f y)" x] by simp

lemma state_exact_update:
  assumes ex: "state_exact s" and room: "unat (hist_total s) + 1 < 2 ^ 32"
  shows "state_exact (stoch_hist_update c x s)"
    and "unat (hist_total (stoch_hist_update c x s)) = unat (hist_total s) + 1"
proof -
  define h where "h = hist_data s c"
  define h' where "h' = h\<lparr>h_data := (h_data h)(x := h_data h x + 1), h_total := h_total h + 1\<rparr>"
  have upd: "stoch_hist_update c x s = s\<lparr>hist_data := (hist_data s)(c := h'), hist_total := hist_total s + 1\<rparr>"
    by (simp add: stoch_hist_update_eq h'_def h_def)
  have hs: "unat (h_total h) = (\<Sum>y\<in>UNIV. unat (h_data h y))"
    and gs: "unat (hist_total s) = (\<Sum>d\<in>UNIV. unat (h_total (hist_data s d)))"
    using ex by (simp_all add: state_exact_def h_def)
  have "unat (h_total h) \<le> unat (hist_total s)"
    unfolding gs h_def by (rule sum_unat_ge [of "\<lambda>d. h_total (hist_data s d)" c])
  then have ht: "unat (h_total h) + 1 < 2 ^ 32" using room by simp
  have "unat (h_data h x) \<le> unat (h_total h)"
    unfolding hs by (rule sum_unat_ge)
  then have hd: "unat (h_data h x) + 1 < 2 ^ 32" using ht by simp
  have "(\<Sum>y\<in>UNIV. unat (((h_data h)(x := h_data h x + 1)) y)) = (\<Sum>y\<in>UNIV. unat (h_data h y)) + 1"
    using hd by (rule sum_unat_bump)
  moreover have "unat (h_total h + 1) = unat (h_total h) + 1"
    using ht by (rule unat_inc)
  ultimately have 1: "unat (h_total h') = (\<Sum>y\<in>UNIV. unat (h_data h' y))"
    using hs by (simp add: h'_def del: fun_upd_apply)
  have "(\<Sum>d\<in>UNIV. unat (h_total (((hist_data s)(c := h')) d)))
          = (\<Sum>d\<in>UNIV. unat (((\<lambda>d. h_total (hist_data s d))(c := h_total (hist_data s c) + 1)) d))"
    by (rule sum.cong) (simp_all add: h'_def h_def)
  also have "\<dots> = (\<Sum>d\<in>UNIV. unat (h_total (hist_data s d))) + 1"
    using ht by (intro sum_unat_bump) (simp add: h_def)
  finally have 2: "(\<Sum>d\<in>UNIV. unat (h_total (((hist_data s)(c := h')) d))) = unat (hist_total s) + 1"
    using gs by simp
  show "unat (hist_total (stoch_hist_update c x s)) = unat (hist_total s) + 1"
    using room by (simp add: upd unat_inc)
  have "\<forall>d. unat (h_total (((hist_data s)(c := h')) d)) = (\<Sum>y\<in>UNIV. unat (h_data (((hist_data s)(c := h')) d) y))"
    using ex 1 by (simp add: state_exact_def)
  then show "state_exact (stoch_hist_update c x s)"
    using 2 room by (simp add: upd state_exact_def unat_inc)
qed

lemma state_exact_write_loop:
  "state_exact s \<Longrightarrow> unat (hist_total s) + length buf < 2 ^ 32 \<Longrightarrow>
   state_exact (write_loop buf s) \<and> unat (hist_total (write_loop buf s)) = unat (hist_total s) + length buf"
proof (induction buf arbitrary: s)
  case Nil
  then show ?case by simp
next
  case (Cons x buf)
  let ?s1 = "(stoch_hist_update (stoch_prev s) x s)\<lparr>stoch_prev := x\<rparr>"
  have room: "unat (hist_total s) + 1 < 2 ^ 32" using Cons.prems by simp
  have 1: "state_exact ?s1"
    using state_exact_update(1) [OF Cons.prems(1) room] by (simp add: state_exact_def)
  have 2: "unat (hist_total ?s1) = unat (hist_total s) + 1"
    using state_exact_update(2) [OF Cons.prems(1) room] by simp
  have "unat (hist_total ?s1) + length buf < 2 ^ 32" using 2 Cons.prems by simp
  then have "state_exact (write_loop buf ?s1) \<and>
             unat (hist_total (write_loop buf ?s1)) = unat (hist_total ?s1) + length buf"
    using 1 by (intro Cons.IH)
  then show ?case using 2 by simp
qed

lemma state_exact_stoch_writes:
  "state_exact s \<Longrightarrow> unat (hist_total s) + length (concat bufs) < 2 ^ 32 \<Longrightarrow>
   state_exact (stoch_writes bufs s) \<and>
   unat (hist_total (stoch_writes bufs s)) = unat (hist_total s) + length (concat bufs)"
proof (induction bufs arbitrary: s)
  case Nil
  then show ?case by simp
next
  case (Cons buf bufs)
  let ?s1 = "write_loop buf s"
  have "unat (hist_total s) + length buf < 2 ^ 32" using Cons.prems by simp
  then have 1: "state_exact ?s1" and 2: "unat (hist_total ?s1) = unat (hist_total s) + length buf"
    using state_exact_write_loop [OF Cons.prems(1)] by simp_all
  have "unat (hist_total ?s1) + length (concat bufs) < 2 ^ 32" using 2 Cons.prems by simp
  then have "state_exact (stoch_writes bufs ?s1) \<and>
     unat (hist_total (stoch_writes bufs ?s1)) = unat (hist_total ?s1) + length (concat bufs)"
    using 1 by (intro Cons.IH)
  then show ?case using 2 by (simp add: stoch_write_def)
qed

lemma state_exact_statics: "state_exact (statics e)"
  by (simp add: state_exact_def statics_def)

subsection \<open>The whole of \<^verbatim>\<open>stoch_hist_gen\<close>\<close>

lemma scast_zero_neq: "0 < sz \<Longrightarrow> sz < 2 ^ 64 \<Longrightarrow> (scast (0 :: 32 word) :: size_t) \<noteq> of_nat sz"
  using of_nat_size_neq [of 0 sz] by simp

lemma stoch_hist_gen_empty:
  assumes "hist_total s = 0" "0 < sz" "sz < 2 ^ 64" "length buff = sz"
  shows "stoch_hist_gen buff sz s = Some (replicate sz 0, 0, [], s)"
proof -
  have "(scast (0 :: 32 word) :: size_t) \<noteq> of_nat sz"
    using assms by (intro scast_zero_neq)
  then have "gen_loop sz 0 0 0 buff [] s = Some (take 0 buff @ replicate (sz - 0) 0, 0, [], s)"
    using assms by (intro gen_loop_inactive) simp_all
  then show ?thesis using assms by (simp add: stoch_hist_gen_def)
qed

lemma stoch_hist_gen_trained:
  assumes "\<forall>c. hist_ok (hist_data s c)" "hist_total s \<noteq> 0" "sz < 2 ^ 31" "length buff = sz"
  shows "\<exists>smp e'. stoch_hist_gen buff sz s =
           Some (smp @ replicate (sz - length smp) 0,
                 (if 0 \<in> set smp then of_nat (length smp - 1) else of_nat sz), smp, s\<lparr>entropy := e'\<rparr>)
         \<and> length smp \<le> sz \<and> 0 \<notin> set (butlast smp) \<and> (0 \<notin> set smp \<longrightarrow> length smp = sz)"
proof -
  define e0 where "e0 = skip_bytes 8 (entropy s)"
  define prev where "prev = start_loop (hist_data s)
      ((le_word (map (entropy s) [0..<8]) :: size_t) mod ucast (hist_total s)) 0 0 0"
  have gen: "stoch_hist_gen buff sz s =
     (case gen_loop sz 0 (of_nat sz) prev buff [] (s\<lparr>entropy := e0\<rparr>) of
        None \<Rightarrow> None | Some (buff', pos', smp, s') \<Rightarrow> Some (buff', scast pos', smp, s'))"
    using assms(2) by (simp add: stoch_hist_gen_def get_random_bytes_def e0_def prev_def)
  have "\<forall>c. hist_ok (hist_data (s\<lparr>entropy := e0\<rparr>) c)" using assms(1) by simp
  then obtain smp pos' e' where
    r: "gen_loop sz 0 (of_nat sz) prev buff [] (s\<lparr>entropy := e0\<rparr>) =
          Some (take 0 buff @ smp @ replicate (sz - 0 - length smp) 0, pos', [] @ smp, s\<lparr>entropy := e0\<rparr>\<lparr>entropy := e'\<rparr>)"
    and l: "length smp \<le> sz - 0" and b: "0 \<notin> set (butlast smp)"
    and p: "if 0 \<in> set smp then pos' = of_nat (0 + length smp - 1)
            else length smp = sz - 0 \<and> pos' = of_nat sz"
    using gen_loop_active [of "s\<lparr>entropy := e0\<rparr>" sz buff 0 prev "[]"] assms(3,4) by auto
  have "length smp - 1 < 2 ^ 31" using l assms(3) by simp
  then have "(scast (of_nat (length smp - 1) :: 32 word) :: size_t) = of_nat (length smp - 1)"
    by (rule scast_of_nat_small)
  moreover have "(scast (of_nat sz :: 32 word) :: size_t) = of_nat sz"
    using assms(3) by (rule scast_of_nat_small)
  ultimately have "(scast pos' :: size_t) = (if 0 \<in> set smp then of_nat (length smp - 1) else of_nat sz)"
    using p by (simp split: if_splits)
  then have "stoch_hist_gen buff sz s =
           Some (smp @ replicate (sz - length smp) 0,
                 (if 0 \<in> set smp then of_nat (length smp - 1) else of_nat sz), smp, s\<lparr>entropy := e'\<rparr>)"
    using gen r by simp
  then show ?thesis using l b p by (intro exI [of _ smp] exI [of _ e']) (simp split: if_splits)
qed

lemma zero_is_last:
  assumes "0 \<notin> set (butlast smp)" "i < length smp" "smp ! i = (0 :: byte)"
  shows "length smp = Suc i"
proof (rule ccontr)
  assume "length smp \<noteq> Suc i"
  then have i: "i < length (butlast smp)" using assms(2) by simp
  then have "butlast smp ! i = 0" using assms(3) by (simp add: nth_butlast)
  then have "0 \<in> set (butlast smp)" using i by (metis nth_mem)
  then show False using assms(1) by simp
qed

subsection \<open>Runs of the code\<close>

lemma skip_entropy_of: "skip_bytes n (entropy_of bs) = entropy_of (drop n bs)"
  by (auto simp: skip_bytes_def entropy_of_def fun_eq_iff add.commute)

lemma trained_111_eq: "trained_111 = \<lparr>hist_data = (\<lambda>_. \<lparr>h_data = (\<lambda>_. 0), h_total = 0\<rparr>)
     (0 := \<lparr>h_data = (\<lambda>_. 0)(1 := 1), h_total = 1\<rparr>, 1 := \<lparr>h_data = (\<lambda>_. 0)(1 := 2), h_total = 2\<rparr>),
     hist_total = 3, stoch_prev = 1, entropy = entropy_of [2, 0, 0, 0, 0, 0, 0, 0, 1, 0, 0, 0]\<rparr>"
  by (auto simp: trained_111_def stoch_write_def stoch_hist_update_eq stoch_init_statics statics_def fun_eq_iff)

lemma random_8_bytes: "get_random_bytes 8 (entropy_of [2, 0, 0, 0, 0, 0, 0, 0, 1, 0, 0, 0]) = ([2, 0, 0, 0, 0, 0, 0, 0], entropy_of [1, 0, 0, 0])"
  by (simp add: get_random_bytes_def skip_entropy_of) (simp add: entropy_of_def upt_conv_Cons)

lemma random_4_bytes: "get_random_bytes 4 (entropy_of [1, 0, 0, 0]) = ([1, 0, 0, 0], entropy_of [])"
  by (simp add: get_random_bytes_def skip_entropy_of) (simp add: entropy_of_def upt_conv_Cons)

lemma start_trained_111: "start_loop (hist_data trained_111) 2 0 0 0 = 1"
  by (simp add: trained_111_eq start_loop.simps word_le_nat_alt)

lemma val_trained_111: "stoch_hist_val (hist_data trained_111 1) 1 (entropy_of [1, 0, 0, 0]) = Some (1, entropy_of [])"
  by (simp add: trained_111_eq stoch_hist_val_def random_4_bytes le_word_def val_loop.simps)

lemma gen_loop_trained_111: "gen_loop 1 0 1 1 [0] [] (trained_111\<lparr>entropy := entropy_of [1, 0, 0, 0]\<rparr>)
   = Some ([1], 1, [1], trained_111\<lparr>entropy := entropy_of []\<rparr>)"
proof -
  have "gen_loop 1 0 1 1 [0] [] (trained_111\<lparr>entropy := entropy_of [1, 0, 0, 0]\<rparr>)
    = gen_loop 1 (0 + 1) (if (1 :: byte) = 0 then of_nat 0 else 1) 1 ([0][0 := 1]) ([] @ [1]) (trained_111\<lparr>entropy := entropy_of [1, 0, 0, 0]\<rparr>\<lparr>entropy := entropy_of []\<rparr>)"
    by (rule gen_loop_step_active) (simp_all add: val_trained_111)
  then show ?thesis by (simp add: gen_loop.simps)
qed

lemma gen_trained_111: "stoch_hist_gen [0] 1 trained_111 = Some ([1], 1, [1], trained_111\<lparr>entropy := entropy_of []\<rparr>)"
proof -
  have "hist_total trained_111 = 3" "entropy trained_111 = entropy_of [2, 0, 0, 0, 0, 0, 0, 0, 1, 0, 0, 0]"
    by (simp_all add: trained_111_eq)
  then show ?thesis
    by (simp add: stoch_hist_gen_def random_8_bytes le_word_def start_trained_111 gen_loop_trained_111 del: One_nat_def)
qed

lemma state_ok_trained_111: "state_ok trained_111"
  unfolding trained_111_def stoch_write_def stoch_init_statics snd_conv
  by (rule state_ok_write_loop [OF state_ok_statics])

lemma fresh_eq: "fresh = statics (entropy_of [])"
  by (simp add: fresh_def stoch_init_statics)

lemma gen_fresh: "stoch_hist_gen [7] 1 fresh = Some ([0], 0, [], fresh)"
  using stoch_hist_gen_empty [of fresh 1 "[7]"] by (simp add: fresh_eq statics_def)

lemma stoch_hist_gen_frame:
  assumes "stoch_hist_gen buff sz s = Some (buf, n, smp, s')"
  shows "\<exists>e'. s' = s\<lparr>entropy := e'\<rparr>"
proof -
  obtain pos prev e0 where
    "stoch_hist_gen buff sz s =
       (case gen_loop sz 0 pos prev buff [] (s\<lparr>entropy := e0\<rparr>) of
          None \<Rightarrow> None | Some (buff', pos', smp, s') \<Rightarrow> Some (buff', scast pos', smp, s'))"
    by (simp add: stoch_hist_gen_def Let_def split_def)
  then obtain pos' where "gen_loop sz 0 pos prev buff [] (s\<lparr>entropy := e0\<rparr>) = Some (buf, pos', smp, s')"
    using assms by (auto split: option.splits)
  then obtain e' where "s' = s\<lparr>entropy := e0\<rparr>\<lparr>entropy := e'\<rparr>"
    using gen_loop_frame by blast
  then have "s' = s\<lparr>entropy := e'\<rparr>" by simp
  then show ?thesis by blast
qed

lemma stoch_hist_gen_buff_indep:
  assumes "length buff1 = sz" "length buff2 = sz"
  shows "stoch_hist_gen buff1 sz s = stoch_hist_gen buff2 sz s"
proof -
  have "gen_loop sz 0 pos prev buff1 [] s0 = gen_loop sz 0 pos prev buff2 [] s0" for pos prev s0
    using assms by (intro gen_loop_buff_indep) simp_all
  then show ?thesis by (simp add: stoch_hist_gen_def Let_def split_def)
qed

lemma stoch_hist_gen_Some:
  assumes "state_ok s"
  shows "\<exists>r. stoch_hist_gen buff sz s = Some r"
proof -
  have ok: "\<forall>c. hist_ok (hist_data (s\<lparr>entropy := e0\<rparr>) c)" for e0
    using assms by (simp add: state_ok_def)
  show ?thesis
  proof (cases "hist_total s = 0")
    case True
    obtain r where "gen_loop sz 0 0 0 buff [] (s\<lparr>entropy := entropy s\<rparr>) = Some r"
      using gen_loop_Some [OF ok] by blast
    then show ?thesis using True
      by (cases r) (simp add: stoch_hist_gen_def)
  next
    case False
    define prev where "prev = start_loop (hist_data s)
      ((le_word (map (entropy s) [0..<8]) :: size_t) mod ucast (hist_total s)) 0 0 0"
    obtain r where "gen_loop sz 0 (of_nat sz) prev buff [] (s\<lparr>entropy := skip_bytes 8 (entropy s)\<rparr>) = Some r"
      using gen_loop_Some [OF ok] by blast
    then show ?thesis using False
      by (cases r) (simp add: stoch_hist_gen_def get_random_bytes_def prev_def)
  qed
qed

lemma h31_fields:
  "h_data (hist_data trained_11112 1) 0 = 0" "h_data (hist_data trained_11112 1) 1 = 3"
  "h_data (hist_data trained_11112 1) 2 = 1" "h_total (hist_data trained_11112 1) = 4"
  by (simp_all add: trained_11112_def fresh_eq statics_def stoch_write_def stoch_hist_update_eq)

lemma h31_eq: "hist_data trained_11112 1 = \<lparr>h_data = (\<lambda>_. 0)(1 := 3, 2 := 1), h_total = 4\<rparr>"
  by (auto simp: trained_11112_def fresh_eq statics_def stoch_write_def stoch_hist_update_eq fun_eq_iff)

lemma random_byte: "get_random_bytes 4 (entropy_of [b]) = ([b, 0, 0, 0], entropy_of [])"
  by (simp add: get_random_bytes_def skip_entropy_of) (simp add: entropy_of_def upt_conv_Cons)

lemma val_h31:
  "stoch_hist_val (hist_data trained_11112 1) 1 (entropy_of [0]) = Some (0, entropy_of [])"
  "stoch_hist_val (hist_data trained_11112 1) 1 (entropy_of [1]) = Some (1, entropy_of [])"
  "stoch_hist_val (hist_data trained_11112 1) 1 (entropy_of [2]) = Some (1, entropy_of [])"
  "stoch_hist_val (hist_data trained_11112 1) 1 (entropy_of [3]) = Some (1, entropy_of [])"
  by (simp_all add: h31_eq stoch_hist_val_def random_byte le_word_def val_loop.simps)

lemma mod4_cases: "(j :: uint) mod 4 = 0 \<or> j mod 4 = 1 \<or> j mod 4 = 2 \<or> j mod 4 = 3"
proof -
  have "unat (j mod 4) < 4"
    by (simp add: unat_mod)
  then have "unat (j mod 4) = 0 \<or> unat (j mod 4) = 1 \<or> unat (j mod 4) = 2 \<or> unat (j mod 4) = 3"
    by arith
  then show ?thesis
    by (auto simp: word_unat_eq_iff)
qed

lemma val_h31_never_2:
  "\<exists>v e'. stoch_hist_val (hist_data trained_11112 1) prev e = Some (v, e') \<and> v \<noteq> 2"
proof -
  let ?h = "\<lparr>h_data = (\<lambda>_. 0)(1 := 3, 2 := 1), h_total = (4 :: uint)\<rparr>"
  define j :: uint where "j = le_word (map e [0..<4])"
  define p :: uint where "p = ucast (ucast (j mod 4) :: byte)"
  have key: "\<exists>v. val_loop ?h (ucast (ucast r :: byte)) 0 0 0 = Some v \<and> v \<noteq> 2"
    if "r = 0 \<or> r = 1 \<or> r = 2 \<or> r = 3" for r :: uint
  proof -
    have "val_loop ?h (ucast (ucast (0 :: uint) :: byte)) 0 0 0 = Some 0"
         "val_loop ?h (ucast (ucast (1 :: uint) :: byte)) 0 0 0 = Some 1"
         "val_loop ?h (ucast (ucast (2 :: uint) :: byte)) 0 0 0 = Some 1"
         "val_loop ?h (ucast (ucast (3 :: uint) :: byte)) 0 0 0 = Some 1"
      by (simp_all add: val_loop.simps)
    then show ?thesis using that by auto
  qed
  obtain v where v: "val_loop ?h p 0 0 0 = Some v" "v \<noteq> 2"
    unfolding p_def using key [OF mod4_cases] by blast
  have "stoch_hist_val ?h prev e = Some (v, skip_bytes 4 e)"
    using v(1) by (simp add: stoch_hist_val_def get_random_bytes_def j_def [symmetric] p_def [symmetric])
  then show ?thesis using v(2) by (auto simp: h31_eq)
qed

lemma h300_eq: "hist_data trained_301 1 = \<lparr>h_data = (\<lambda>_. 0)(1 := 300), h_total = 300\<rparr>"
proof -
  define s1 where "s1 = (stoch_hist_update 0 1 (statics (entropy_of [])))\<lparr>stoch_prev := 1\<rparr>"
  have "replicate 301 (1 :: byte) = 1 # replicate 300 1"
    by (simp add: replicate_Suc [symmetric] del: replicate_Suc)
  then have "trained_301 = write_loop (replicate 300 1) s1"
    by (simp add: trained_301_def stoch_write_def fresh_eq s1_def) (simp add: statics_def)
  moreover have "stoch_prev s1 = 1" by (simp add: s1_def)
  then have "hist_data (write_loop (replicate 300 1) s1) 1 =
     (hist_data s1 1)\<lparr>h_data := (h_data (hist_data s1 1))(1 := h_data (hist_data s1 1) 1 + of_nat 300),
            h_total := h_total (hist_data s1 1) + of_nat 300\<rparr>"
    by (rule write_replicate)
  ultimately have "hist_data trained_301 1 =
     (hist_data s1 1)\<lparr>h_data := (h_data (hist_data s1 1))(1 := h_data (hist_data s1 1) 1 + of_nat 300),
            h_total := h_total (hist_data s1 1) + of_nat 300\<rparr>"
    by simp
  moreover have "hist_data s1 1 = \<lparr>h_data = (\<lambda>_. 0), h_total = 0\<rparr>"
    by (simp add: s1_def stoch_hist_update_eq statics_def)
  ultimately show ?thesis by simp
qed

lemma random_2_bytes: "get_random_bytes 4 (entropy_of [a, b]) = ([a, b, 0, 0], entropy_of [])"
  by (simp add: get_random_bytes_def skip_entropy_of) (simp add: entropy_of_def upt_conv_Cons)

lemma val_h300: "stoch_hist_val (hist_data trained_301 1) 1 (entropy_of [0, 1]) = Some (0, entropy_of [])"
  by (simp add: h300_eq stoch_hist_val_def random_2_bytes le_word_def val_loop.simps)

lemma draw_h300: "(le_word [0, 1, 0, 0] :: uint) mod h_total (hist_data trained_301 1) = 256"
  by (simp add: h300_eq le_word_def)

lemma trained_12_fields:
  "h_total (hist_data trained_12 0) = 1" "h_total (hist_data trained_12 1) = 1" "hist_total trained_12 = 2"
  by (simp_all add: trained_12_def fresh_eq statics_def stoch_write_def stoch_hist_update_eq)

lemma start_trained_12:
  "start_loop (hist_data trained_12) 0 0 0 0 = 0" "start_loop (hist_data trained_12) 1 0 0 0 = 0"
  by (simp_all add: trained_12_fields start_loop.simps)

lemma trained_111_fields:
  "h_data (hist_data trained_111 1) 1 = 2" "h_total (hist_data trained_111 1) = 2" "hist_total trained_111 = 3"
  by (simp_all add: trained_111_eq)

lemma random_no_bytes: "get_random_bytes 4 (entropy_of []) = ([0, 0, 0, 0], entropy_of [])"
  by (simp add: get_random_bytes_def skip_entropy_of) (simp add: entropy_of_def upt_conv_Cons)

lemma val_trained_111_zero:
  "stoch_hist_val (hist_data trained_111 1) 1 (entropy_of []) = Some (0, entropy_of [])"
  by (simp add: trained_111_eq stoch_hist_val_def random_no_bytes le_word_def val_loop.simps)

lemma gen_loop_trained_111_3:
  "gen_loop 3 0 3 1 [0, 0, 0] [] (trained_111\<lparr>entropy := entropy_of [1, 0, 0, 0]\<rparr>)
   = Some ([1, 0, 0], 1, [1, 0], trained_111\<lparr>entropy := entropy_of []\<rparr>)"
proof -
  let ?s1 = "trained_111\<lparr>entropy := entropy_of [1, 0, 0, 0]\<rparr>"
  let ?s2 = "trained_111\<lparr>entropy := entropy_of []\<rparr>"
  have "gen_loop 3 0 3 1 [0, 0, 0] [] ?s1
    = gen_loop 3 (0 + 1) (if (1 :: byte) = 0 then of_nat 0 else 3) 1 ([0, 0, 0][0 := 1]) ([] @ [1]) (?s1\<lparr>entropy := entropy_of []\<rparr>)"
    by (rule gen_loop_step_active) (simp_all add: val_trained_111)
  also have "\<dots> = gen_loop 3 1 3 1 [1, 0, 0] [1] ?s2" by simp
  also have "\<dots> = gen_loop 3 (1 + 1) (if (0 :: byte) = 0 then of_nat 1 else 3) 0 ([1, 0, 0][1 := 0]) ([1] @ [0]) (?s2\<lparr>entropy := entropy_of []\<rparr>)"
    by (rule gen_loop_step_active) (simp_all add: val_trained_111_zero)
  also have "\<dots> = gen_loop 3 2 1 0 [1, 0, 0] [1, 0] ?s2" by (simp add: numeral_2_eq_2)
  also have "\<dots> = Some (take 2 [1, 0, 0] @ replicate (3 - 2) 0, 1, [1, 0], ?s2)"
    by (rule gen_loop_inactive) simp_all
  finally show ?thesis by (simp add: numeral_2_eq_2)
qed

lemma gen_trained_111_3:
  "stoch_hist_gen [0, 0, 0] 3 trained_111 = Some ([1, 0, 0], 1, [1, 0], trained_111\<lparr>entropy := entropy_of []\<rparr>)"
proof -
  have "hist_total trained_111 = 3" "entropy trained_111 = entropy_of [2, 0, 0, 0, 0, 0, 0, 0, 1, 0, 0, 0]"
    by (simp_all add: trained_111_eq)
  then show ?thesis
    by (simp add: stoch_hist_gen_def random_8_bytes le_word_def start_trained_111 gen_loop_trained_111_3)
qed

lemma writes_keep_totals:
  "let s = stoch_writes bufs (stoch_init e) in
     (\<forall>c. h_total (hist_data s c) = (\<Sum>x\<in>UNIV. h_data (hist_data s c) x))
     \<and> hist_total s = (\<Sum>c\<in>UNIV. h_total (hist_data s c))
     \<and> (length (concat bufs) < 2 ^ 32 \<longrightarrow>
          (\<forall>c. unat (h_total (hist_data s c)) = (\<Sum>x\<in>UNIV. unat (h_data (hist_data s c) x)))
          \<and> unat (hist_total s) = (\<Sum>c\<in>UNIV. unat (h_total (hist_data s c))))"
proof -
  have "state_ok (stoch_writes bufs (statics e))"
    by (simp add: state_ok_stoch_writes state_ok_statics)
  moreover have "state_exact (stoch_writes bufs (statics e))" if "length (concat bufs) < 2 ^ 32"
  proof -
    have "unat (hist_total (statics e)) + length (concat bufs) < 2 ^ 32"
      using that by (simp add: statics_def)
    then show ?thesis
      using state_exact_stoch_writes [OF state_exact_statics] by blast
  qed
  ultimately show ?thesis
    by (simp add: stoch_init_statics state_ok_def hist_ok_def state_exact_def)
qed

subsection \<open>A run that wraps the global total\<close>

lemma hist_total_write_loop:
  "hist_total (write_loop buf s) = hist_total s + of_nat (length buf)"
  by (induction buf arbitrary: s) (simp_all add: stoch_hist_update_eq add.assoc)

lemma write_replicate_other:
  "stoch_prev s = x \<Longrightarrow> c \<noteq> x \<Longrightarrow> hist_data (write_loop (replicate n x) s) c = hist_data s c"
proof (induction n arbitrary: s)
  case 0
  then show ?case by simp
next
  case (Suc n)
  define s1 where "s1 = (stoch_hist_update x x s)\<lparr>stoch_prev := x\<rparr>"
  have "stoch_prev s1 = x" by (simp add: s1_def)
  then have "hist_data (write_loop (replicate n x) s1) c = hist_data s1 c"
    using Suc.prems(2) by (rule Suc.IH)
  moreover have "hist_data s1 c = hist_data s c"
    using Suc.prems(2) by (simp add: s1_def stoch_hist_update_eq)
  moreover have "write_loop (replicate (Suc n) x) s = write_loop (replicate n x) s1"
    using Suc.prems(1) by (simp add: s1_def)
  ultimately show ?case by simp
qed

lemma wrapped_eq:
  "wrapped = write_loop (replicate 4294967295 1)
     ((stoch_hist_update 0 1 (statics (entropy_of [])))\<lparr>stoch_prev := 1\<rparr>)"
  by (simp add: wrapped_def stoch_write_def fresh_eq) (simp add: statics_def)

lemma wrapped_fields:
  "hist_total wrapped = 0"
  "h_total (hist_data wrapped 0) = 1"
  "h_data (hist_data wrapped 1) 1 = 4294967295"
  "h_total (hist_data wrapped 1) = 4294967295"
proof -
  define s1 where "s1 = (stoch_hist_update 0 1 (statics (entropy_of [])))\<lparr>stoch_prev := 1\<rparr>"
  have w: "wrapped = write_loop (replicate 4294967295 1) s1"
    by (simp add: wrapped_eq s1_def)
  have p: "stoch_prev s1 = 1" by (simp add: s1_def)
  have t: "hist_total s1 = 1" by (simp add: s1_def stoch_hist_update_eq statics_def)
  have h0: "hist_data s1 0 = \<lparr>h_data = (\<lambda>_. 0)(1 := 1), h_total = 1\<rparr>"
    by (simp add: s1_def stoch_hist_update_eq statics_def)
  have h1: "hist_data s1 1 = \<lparr>h_data = (\<lambda>_. 0), h_total = 0\<rparr>"
    by (simp add: s1_def stoch_hist_update_eq statics_def)
  show "hist_total wrapped = 0"
    by (simp add: w hist_total_write_loop t)
  have "hist_data wrapped 0 = hist_data s1 0"
    unfolding w using p by (rule write_replicate_other) simp
  then show "h_total (hist_data wrapped 0) = 1" by (simp add: h0)
  have "hist_data wrapped 1 =
     (hist_data s1 1)\<lparr>h_data := (h_data (hist_data s1 1))(1 := h_data (hist_data s1 1) 1 + of_nat 4294967295),
            h_total := h_total (hist_data s1 1) + of_nat 4294967295\<rparr>"
    unfolding w using p by (rule write_replicate)
  then show "h_data (hist_data wrapped 1) 1 = 4294967295" "h_total (hist_data wrapped 1) = 4294967295"
    by (simp_all add: h1)
qed

lemma wrapped_written: "length (concat [[1], replicate 4294967295 (1 :: byte)]) = 2 ^ 32"
  by simp

lemma wrapped_not_exact:
  "unat (hist_total wrapped) \<noteq> (\<Sum>c\<in>UNIV. unat (h_total (hist_data wrapped c)))"
proof -
  have "unat (h_total (hist_data wrapped 0)) \<le> (\<Sum>c\<in>UNIV. unat (h_total (hist_data wrapped c)))"
    by (rule sum_unat_ge [of "\<lambda>c. h_total (hist_data wrapped c)" 0])
  moreover have "unat (h_total (hist_data wrapped 0)) = 1" "unat (hist_total wrapped) = 0"
    by (simp_all add: wrapped_fields)
  ultimately show ?thesis by linarith
qed

lemma gen_wrapped: "stoch_hist_gen [7] 1 wrapped = Some ([0], 0, [], wrapped)"
  using stoch_hist_gen_empty [of wrapped 1 "[7]"] by (simp add: wrapped_fields)

section \<open>The claims\<close>

text \<open>
  C1. For a histogram with \<open>total > 0\<close>, \<^verbatim>\<open>stoch_hist_val\<close> should return each symbol \<open>s\<close>
  for exactly \<open>counts[s]\<close> of the \<open>total\<close> equally likely values of \<^verbatim>\<open>j % total\<close>.
  The code does not: after the write of the bytes 1 1 1 1 2 the histogram of context 1 has
  the counts 3 for symbol 1 and 1 for symbol 2, total 4. Of the four draws 0, 1, 2, 3 the
  first returns symbol 0, whose count is 0, and the other three return symbol 1; symbol 2
  is returned for no random value at all. The loop stops at the first running sum
  \<open>\<ge> p\<close>, where a sum \<open>> p\<close> would give the stated distribution.
\<close>

theorem sampler_not_proportional:
  "h_data (hist_data trained_11112 1) 0 = 0 \<and> h_data (hist_data trained_11112 1) 1 = 3
   \<and> h_data (hist_data trained_11112 1) 2 = 1 \<and> h_total (hist_data trained_11112 1) = 4
   \<and> stoch_hist_val (hist_data trained_11112 1) 1 (entropy_of [0]) = Some (0, entropy_of [])
   \<and> stoch_hist_val (hist_data trained_11112 1) 1 (entropy_of [1]) = Some (1, entropy_of [])
   \<and> stoch_hist_val (hist_data trained_11112 1) 1 (entropy_of [2]) = Some (1, entropy_of [])
   \<and> stoch_hist_val (hist_data trained_11112 1) 1 (entropy_of [3]) = Some (1, entropy_of [])
   \<and> (\<forall>prev e. \<exists>v e'. stoch_hist_val (hist_data trained_11112 1) prev e = Some (v, e') \<and> v \<noteq> 2)"
  using h31_fields val_h31 val_h31_never_2 by blast

text \<open>
  C2. One call of \<^verbatim>\<open>stoch_hist_val\<close> should draw \<open>r\<close> in \<open>[0, total)\<close> and return the first
  symbol whose running sum of counts is \<open>\<ge> r\<close>. The code compares the running sum
  with \<^verbatim>\<open>(unsigned char)(j % h->total)\<close>, that is with \<open>r mod 256\<close>. After the write of
  301 bytes of value 1 the histogram of context 1 has count 300 for symbol 1 and total 300.
  For the random value 256 the draw is \<open>r = 256\<close>; the running sum is 0 at symbol 0 and
  300 at symbol 1, so the first symbol with a sum \<open>\<ge> r\<close> is 1, but the code returns 0.
\<close>

theorem sampler_truncates_draw:
  "h_total (hist_data trained_301 1) = 300
   \<and> (le_word [0, 1, 0, 0] :: uint) mod h_total (hist_data trained_301 1) = 256
   \<and> h_data (hist_data trained_301 1) 0 = 0
   \<and> h_data (hist_data trained_301 1) 0 + h_data (hist_data trained_301 1) 1 = 300
   \<and> stoch_hist_val (hist_data trained_301 1) 1 (entropy_of [0, 1]) = Some (0, entropy_of [])"
  using val_h300 draw_h300 by (simp add: h300_eq)



text \<open>
  C4, as amended. In every call of \<^verbatim>\<open>stoch_hist_gen\<close> with \<open>1 \<le> size < 2 ^ 31\<close> on a
  well-formed state whose global total is not 0, the call returns; the buffer has \<open>size\<close>
  bytes and starts with the sampled values; if symbol 0 is first sampled at position \<open>i\<close>
  then the returned length is \<open>i\<close>, that sample is the last one taken, and the positions
  \<open>i\<close> to \<open>size - 1\<close> hold 0; if no 0 is sampled then \<open>size\<close> values were sampled and the
  returned length is \<open>size\<close>. In all cases the returned length is at most \<open>size\<close>.
\<close>

theorem generation_stops_at_terminator:
  assumes "state_ok s" "hist_total s \<noteq> 0" "1 \<le> sz" "sz < 2 ^ 31" "length buff = sz"
  shows "\<exists>buf n smp s'.
           stoch_hist_gen buff sz s = Some (buf, n, smp, s')
           \<and> length buf = sz \<and> unat n \<le> sz
           \<and> (\<forall>k<length smp. buf ! k = smp ! k)
           \<and> (\<forall>i. i < length smp \<and> smp ! i = 0 \<and> (\<forall>k<i. smp ! k \<noteq> 0) \<longrightarrow>
                  unat n = i \<and> length smp = Suc i \<and> (\<forall>k. i \<le> k \<and> k < sz \<longrightarrow> buf ! k = 0))
           \<and> (0 \<notin> set smp \<longrightarrow> unat n = sz \<and> length smp = sz)"
proof -
  have "\<forall>c. hist_ok (hist_data s c)" using assms(1) by (simp add: state_ok_def)
  then obtain smp e' where
    g: "stoch_hist_gen buff sz s =
           Some (smp @ replicate (sz - length smp) 0,
                 (if 0 \<in> set smp then of_nat (length smp - 1) else of_nat sz), smp, s\<lparr>entropy := e'\<rparr>)"
    and l: "length smp \<le> sz" and b: "0 \<notin> set (butlast smp)" and f: "0 \<notin> set smp \<longrightarrow> length smp = sz"
    using stoch_hist_gen_trained [OF _ assms(2,4,5)] by blast
  define buf where "buf = smp @ replicate (sz - length smp) 0"
  define n :: size_t where "n = (if 0 \<in> set smp then of_nat (length smp - 1) else of_nat sz)"
  have sz64: "sz < 2 ^ 64" using assms(4) by simp
  have un: "unat n = (if 0 \<in> set smp then length smp - 1 else sz)"
    using l sz64 by (simp add: n_def unat_of_nat_size)
  have 1: "length buf = sz" using l by (simp add: buf_def)
  have 2: "unat n \<le> sz"
  proof (cases "0 \<in> set smp")
    case True
    then have "unat n = length smp - 1" using un by simp
    then show ?thesis using l by arith
  next
    case False
    then show ?thesis using un by simp
  qed
  have 3: "\<forall>k<length smp. buf ! k = smp ! k" by (simp add: buf_def nth_append)
  have 4: "unat n = i \<and> length smp = Suc i \<and> (\<forall>k. i \<le> k \<and> k < sz \<longrightarrow> buf ! k = 0)"
    if "i < length smp" "smp ! i = 0" for i
  proof -
    have last: "length smp = Suc i" using b that by (rule zero_is_last)
    have "0 \<in> set smp" using that by (metis nth_mem)
    then have "unat n = i" using un last by simp
    moreover have "buf ! k = 0" if "i \<le> k" "k < sz" for k
    proof (cases "k = i")
      case True
      then show ?thesis using \<open>smp ! i = 0\<close> \<open>i < length smp\<close> by (simp add: buf_def nth_append)
    next
      case False
      then have "length smp \<le> k" using that last by simp
      then show ?thesis using that by (simp add: buf_def nth_append)
    qed
    ultimately show ?thesis using last by blast
  qed
  have 5: "0 \<notin> set smp \<longrightarrow> unat n = sz \<and> length smp = sz" using un f by simp
  have "stoch_hist_gen buff sz s = Some (buf, n, smp, s\<lparr>entropy := e'\<rparr>)"
    using g by (simp add: buf_def n_def)
  then show ?thesis using 1 2 3 4 5 by blast
qed

theorem generation_stops_at_terminator_witness:
  "state_ok trained_111 \<and> hist_total trained_111 \<noteq> 0 \<and> (1 :: nat) \<le> 3 \<and> (3 :: nat) < 2 ^ 31
   \<and> length [0, 0, 0 :: byte] = 3
   \<and> stoch_hist_gen [0, 0, 0] 3 trained_111 =
       Some ([1, 0, 0], 1, [1, 0], trained_111\<lparr>entropy := entropy_of []\<rparr>)
   \<and> (1 :: nat) < length [1, 0 :: byte] \<and> [1, 0 :: byte] ! 1 = 0 \<and> [1, 0 :: byte] ! 0 \<noteq> 0
   \<and> unat (1 :: size_t) = 1 \<and> length [1, 0 :: byte] = Suc 1
   \<and> [1, 0, 0 :: byte] ! 1 = 0 \<and> [1, 0, 0 :: byte] ! 2 = 0
   \<and> (1 :: nat) \<le> 1 \<and> (1 :: nat) < 2 ^ 31 \<and> length [0 :: byte] = 1
   \<and> stoch_hist_gen [0] 1 trained_111 = Some ([1], 1, [1], trained_111\<lparr>entropy := entropy_of []\<rparr>)
   \<and> (0 :: byte) \<notin> set [1] \<and> length [1 :: byte] = 1"
proof -
  have h: "hist_total trained_111 \<noteq> 0" by (simp add: trained_111_fields)
  have "\<exists>buf n smp s'.
           stoch_hist_gen [0, 0, 0] 3 trained_111 = Some (buf, n, smp, s')
           \<and> length buf = 3 \<and> unat n \<le> 3
           \<and> (\<forall>k<length smp. buf ! k = smp ! k)
           \<and> (\<forall>i. i < length smp \<and> smp ! i = 0 \<and> (\<forall>k<i. smp ! k \<noteq> 0) \<longrightarrow>
                  unat n = i \<and> length smp = Suc i \<and> (\<forall>k. i \<le> k \<and> k < 3 \<longrightarrow> buf ! k = 0))
           \<and> (0 \<notin> set smp \<longrightarrow> unat n = 3 \<and> length smp = 3)"
    by (rule generation_stops_at_terminator [OF state_ok_trained_111 h]) simp_all
  then have a: "\<forall>i. i < length [1, 0 :: byte] \<and> [1, 0 :: byte] ! i = 0 \<and> (\<forall>k<i. [1, 0 :: byte] ! k \<noteq> 0) \<longrightarrow>
                  unat (1 :: size_t) = i \<and> length [1, 0 :: byte] = Suc i
                  \<and> (\<forall>k. i \<le> k \<and> k < 3 \<longrightarrow> [1, 0, 0 :: byte] ! k = 0)"
    unfolding gen_trained_111_3 by blast
  have "(1 :: nat) < length [1, 0 :: byte] \<and> [1, 0 :: byte] ! 1 = 0 \<and> (\<forall>k<1. [1, 0 :: byte] ! k \<noteq> 0)"
    by simp
  then have a1: "unat (1 :: size_t) = 1 \<and> length [1, 0 :: byte] = Suc 1
      \<and> (\<forall>k. 1 \<le> k \<and> k < 3 \<longrightarrow> [1, 0, 0 :: byte] ! k = 0)"
    using a by blast
  have "(1 :: nat) \<le> 1 \<and> (1 :: nat) < 3" "(1 :: nat) \<le> 2 \<and> (2 :: nat) < 3" by simp_all
  then have a2: "[1, 0, 0 :: byte] ! 1 = 0 \<and> [1, 0, 0 :: byte] ! 2 = 0"
    using a1 by blast
  have "\<exists>buf n smp s'.
           stoch_hist_gen [0] 1 trained_111 = Some (buf, n, smp, s')
           \<and> length buf = 1 \<and> unat n \<le> 1
           \<and> (\<forall>k<length smp. buf ! k = smp ! k)
           \<and> (\<forall>i. i < length smp \<and> smp ! i = 0 \<and> (\<forall>k<i. smp ! k \<noteq> 0) \<longrightarrow>
                  unat n = i \<and> length smp = Suc i \<and> (\<forall>k. i \<le> k \<and> k < 1 \<longrightarrow> buf ! k = 0))
           \<and> (0 \<notin> set smp \<longrightarrow> unat n = 1 \<and> length smp = 1)"
    by (rule generation_stops_at_terminator [OF state_ok_trained_111 h]) simp_all
  then have b: "0 \<notin> set [1 :: byte] \<longrightarrow> unat (1 :: size_t) = 1 \<and> length [1 :: byte] = 1"
    unfolding gen_trained_111 by blast
  show ?thesis
    using state_ok_trained_111 h gen_trained_111_3 gen_trained_111 a1 a2 b by simp
qed

text \<open>
  C4 as it is stated covers every call with \<open>size \<ge> 1\<close>. On the module just loaded
  (global total 0) a generation of one byte samples nothing, so no 0 is sampled, and
  yet the returned length is 0 and not \<open>size = 1\<close>: the code sets \<open>pos = 0\<close> for an empty
  model before the loop.
\<close>

theorem generation_untrained_length:
  "stoch_hist_gen [7] 1 fresh = Some ([0], 0, [], fresh)
   \<and> (0 :: byte) \<notin> set [] \<and> unat (0 :: size_t) \<noteq> 1"
  using gen_fresh by simp

text \<open>
  C5. Writing \<open>a\<close> and then \<open>b\<close> in two calls of \<^verbatim>\<open>stoch_write\<close> leaves the same
  state (all counts, all totals, the global total and \<^verbatim>\<open>stoch_prev\<close>) as writing
  \<open>a @ b\<close> in one call, from every starting state.
\<close>

theorem ingest_in_chunks:
  "snd (stoch_write (a @ b) s) = snd (stoch_write b (snd (stoch_write a s)))"
  by (simp add: stoch_write_def write_loop_append)

text \<open>
  C6. After any sequence of writes from the module just loaded, every histogram's
  total should be the sum of its counts and the global total the sum of the histograms'
  totals. The counters are \<^verbatim>\<open>unsigned int\<close> and \<^verbatim>\<open>stoch_hist_update\<close> increments them
  without the overflow check that its own comment asks for. After \<open>2 ^ 32\<close> bytes of
  value 1, written as one byte and then \<open>2 ^ 32 - 1\<close> bytes, the histograms of the contexts
  0 and 1 have the totals 1 and \<open>2 ^ 32 - 1\<close>, and the global total has wrapped to 0: it is
  not the sum of the totals, and a generation finds the model empty and returns zeros.
  (Up to \<open>2 ^ 32 - 1\<close> bytes written the equations hold: \<open>writes_keep_totals\<close>.)
\<close>

theorem grand_total_wraps:
  "length (concat [[1], replicate 4294967295 (1 :: byte)]) = 2 ^ 32
   \<and> h_total (hist_data wrapped 0) = 1
   \<and> h_total (hist_data wrapped 1) = 4294967295
   \<and> hist_total wrapped = 0
   \<and> unat (hist_total wrapped) \<noteq> (\<Sum>c\<in>UNIV. unat (h_total (hist_data wrapped c)))
   \<and> stoch_hist_gen [7] 1 wrapped = Some ([0], 0, [], wrapped)"
  using wrapped_written wrapped_fields wrapped_not_exact gen_wrapped by blast

text \<open>
  C7. On every state with global total 0 and for every \<open>size \<ge> 1\<close> (a \<^verbatim>\<open>size_t\<close>, so
  below \<open>2 ^ 64\<close>), \<^verbatim>\<open>stoch_hist_gen\<close> returns a buffer of \<open>size\<close> zeros and the length 0;
  \<^verbatim>\<open>stoch_hist_val\<close> is never called (the history of samples is empty) and the state,
  the random source included, is left as it was.
\<close>

theorem generate_untrained:
  assumes "hist_total s = 0" "1 \<le> sz" "sz < 2 ^ 64" "length buff = sz"
  shows "stoch_hist_gen buff sz s = Some (replicate sz 0, 0, [], s)"
  using assms by (intro stoch_hist_gen_empty) simp_all

theorem generate_untrained_witness:
  "hist_total (stoch_init (entropy_of [5])) = 0 \<and> (1 :: nat) \<le> 2 \<and> (2 :: nat) < 2 ^ 64
   \<and> length [7, 9 :: byte] = 2
   \<and> stoch_hist_gen [7, 9] 2 (stoch_init (entropy_of [5])) =
       Some (replicate 2 0, 0, [], stoch_init (entropy_of [5]))"
proof -
  have h: "hist_total (stoch_init (entropy_of [5])) = 0"
    by (simp add: stoch_init_statics statics_def)
  show ?thesis
    using h generate_untrained [OF h, of 2 "[7, 9]"] by simp
qed

text \<open>
  C8. With a global total \<open>> 0\<close> the starting context of a generation should be \<open>c\<close>
  for exactly \<open>contexts[c].total\<close> of the \<open>grandTotal\<close> equally likely values of
  \<^verbatim>\<open>i % stoch_hist.total\<close>. The code does not: after the write of the bytes 1 2 the
  contexts 0 and 1 have total 1 each and the global total is 2, and both draws, 0 and 1,
  start in context 0; context 1 is never the start. The loop stops at the first running
  sum \<open>\<ge> i\<close>, where a sum \<open>> i\<close> would give the stated distribution.
\<close>

theorem start_context_not_proportional:
  "h_total (hist_data trained_12 0) = 1 \<and> h_total (hist_data trained_12 1) = 1
   \<and> hist_total trained_12 = 2
   \<and> start_loop (hist_data trained_12) 0 0 0 0 = 0
   \<and> start_loop (hist_data trained_12) 1 0 0 0 = 0"
  using trained_12_fields start_trained_12 by simp

text \<open>
  C9. Whenever \<^verbatim>\<open>stoch_hist_gen\<close> returns, on any state, with any size and any random
  source, it has left every histogram, the global total and \<^verbatim>\<open>stoch_prev\<close> as they
  were; and a second call with the same size, on the state it left with the random
  source put back to where the first call found it (and any buffer of that size),
  returns the same buffer, the same length and the same samples. On a well-formed state
  the call does return.
\<close>

theorem generate_reads_only:
  "(stoch_hist_gen buff sz s = Some (buf, n, smp, s') \<longrightarrow>
      hist_data s' = hist_data s \<and> hist_total s' = hist_total s \<and> stoch_prev s' = stoch_prev s
      \<and> (length buff = sz \<and> length buff2 = sz \<longrightarrow>
           stoch_hist_gen buff2 sz (s'\<lparr>entropy := entropy s\<rparr>) = Some (buf, n, smp, s')))
   \<and> (state_ok s \<longrightarrow> (\<exists>r. stoch_hist_gen buff sz s = Some r))"
proof -
  have "hist_data s' = hist_data s \<and> hist_total s' = hist_total s \<and> stoch_prev s' = stoch_prev s
      \<and> (length buff = sz \<and> length buff2 = sz \<longrightarrow>
           stoch_hist_gen buff2 sz (s'\<lparr>entropy := entropy s\<rparr>) = Some (buf, n, smp, s'))"
    if g: "stoch_hist_gen buff sz s = Some (buf, n, smp, s')"
  proof -
    obtain e' where fr: "s' = s\<lparr>entropy := e'\<rparr>"
      using stoch_hist_gen_frame [OF g] by blast
    then have same: "s'\<lparr>entropy := entropy s\<rparr> = s" by simp
    have "stoch_hist_gen buff2 sz s = Some (buf, n, smp, s')"
      if "length buff = sz" "length buff2 = sz"
      using g stoch_hist_gen_buff_indep [OF that(2) that(1), of s] by simp
    then show ?thesis using fr same by simp
  qed
  then show ?thesis using stoch_hist_gen_Some by blast
qed

theorem generate_reads_only_witness:
  "stoch_hist_gen [0] 1 trained_111 = Some ([1], 1, [1], trained_111\<lparr>entropy := entropy_of []\<rparr>)
   \<and> length [0 :: byte] = 1 \<and> length [9 :: byte] = 1 \<and> state_ok trained_111
   \<and> hist_data (trained_111\<lparr>entropy := entropy_of []\<rparr>) = hist_data trained_111
   \<and> hist_total (trained_111\<lparr>entropy := entropy_of []\<rparr>) = hist_total trained_111
   \<and> stoch_prev (trained_111\<lparr>entropy := entropy_of []\<rparr>) = stoch_prev trained_111
   \<and> stoch_hist_gen [9] 1 (trained_111\<lparr>entropy := entropy_of [], entropy := entropy trained_111\<rparr>)
       = Some ([1], 1, [1], trained_111\<lparr>entropy := entropy_of []\<rparr>)"
  using generate_reads_only [of "[0]" 1 trained_111 "[1]" 1 "[1]" "trained_111\<lparr>entropy := entropy_of []\<rparr>" "[9]"]
    gen_trained_111 state_ok_trained_111
  by simp

text \<open>
  C10. In the module just loaded \<^verbatim>\<open>stoch_prev\<close> is 0, so the first byte \<open>x\<close> of the first
  write is counted in the histogram of context 0, whose count for \<open>x\<close> becomes 1. A write
  leaves \<^verbatim>\<open>stoch_prev\<close> at its last byte (unchanged if it is empty);
  \<^verbatim>\<open>stoch_hists_clear\<close> and \<^verbatim>\<open>stoch_hist_gen\<close> leave it as it was.
\<close>

theorem cursor_owned_by_training:
  "stoch_prev (stoch_init e) = 0
   \<and> snd (stoch_write (x # tmp) (stoch_init e)) =
       write_loop tmp ((stoch_hist_update 0 x (stoch_init e))\<lparr>stoch_prev := x\<rparr>)
   \<and> h_data (hist_data (stoch_hist_update 0 x (stoch_init e)) 0) x = 1
   \<and> stoch_prev (snd (stoch_write buf s)) = (if buf = [] then stoch_prev s else last buf)
   \<and> stoch_prev (stoch_hists_clear s) = stoch_prev s
   \<and> (stoch_hist_gen buff sz s = Some (buf', n, smp, s') \<longrightarrow> stoch_prev s' = stoch_prev s)"
proof -
  have 1: "stoch_prev (stoch_init e) = 0" by (simp add: stoch_init_statics statics_def)
  have 3: "h_data (hist_data (stoch_hist_update 0 x (stoch_init e)) 0) x = 1"
    by (simp add: stoch_hist_update_eq stoch_init_statics statics_def)
  have "stoch_prev (write_loop buf s) = (if buf = [] then stoch_prev s else last buf)" for s
    by (induction buf arbitrary: s) simp_all
  then have 4: "stoch_prev (snd (stoch_write buf s)) = (if buf = [] then stoch_prev s else last buf)"
    by (simp add: stoch_write_def)
  have 6: "stoch_prev s' = stoch_prev s" if "stoch_hist_gen buff sz s = Some (buf', n, smp, s')"
    using stoch_hist_gen_frame [OF that] by auto
  show ?thesis using 1 3 4 6 by (simp add: stoch_write_def stoch_hists_clear_id)
qed

theorem cursor_owned_by_training_witness:
  "stoch_hist_gen [7] 1 fresh = Some ([0], 0, [], fresh) \<and> stoch_prev fresh = stoch_prev fresh
   \<and> stoch_prev (stoch_init (entropy_of [])) = 0
   \<and> h_data (hist_data (stoch_hist_update 0 65 (stoch_init (entropy_of []))) 0) 65 = 1"
  using cursor_owned_by_training [of "entropy_of []" 65 "[]" "[]" fresh "[7]" 1 "[0]" 0 "[]" fresh]
    gen_fresh
  by simp

end
